theory Spec2Isabelle
  imports Main "HOL-Library.Word" "HOL-Library.Sublist"
begin

section \<open>DynamicAtlasManager: the data model\<close>

text \<open>
  The allocator of \<^verbatim>\<open>DynamicAtlasManager.cpp\<close> divides an atlas of
  \<^verbatim>\<open>Width x Height\<close> texels into rectangles. All coordinates are
  \<^verbatim>\<open>Uint32\<close>: 32-bit words whose arithmetic wraps around.
\<close>

type_synonym Uint32 = "32 word"

text \<open>
  Modelled from the spec: the struct \<^verbatim>\<open>Region\<close> is declared in
  \<^verbatim>\<open>DynamicAtlasManager.hpp\<close>, which is not among the sources. It has the
  unsigned fields \<^verbatim>\<open>x, y, width, height\<close> (here \<open>rx\<close>, \<open>ry\<close>, \<open>width\<close>,
  \<open>height\<close>; the positional constructor follows \<^verbatim>\<open>Region{x, y, width, height}\<close>),
  componentwise equality, and is empty when its width or its height is zero.
\<close>

datatype Region = Region (rx: Uint32) (ry: Uint32) (width: Uint32) (height: Uint32)

text \<open>
  Modelled from the spec: \<^verbatim>\<open>Region::IsEmpty\<close> (missing header) returns true iff
  \<^verbatim>\<open>width == 0 || height == 0\<close>.
\<close>

definition IsEmpty :: "Region \<Rightarrow> bool" where
  "IsEmpty r = (width r = 0 \<or> height r = 0)"

text \<open>\<^verbatim>\<open>static const Region InvalidRegion{UINT_MAX, UINT_MAX, 0, 0}\<close>\<close>

definition InvalidRegion :: Region where
  "InvalidRegion = Region (- 1) (- 1) 0 0"

text \<open>
  Modelled from the spec: \<^verbatim>\<open>Region{}\<close>, the value \<^verbatim>\<open>Allocate\<close> returns
  when it finds no source region, is the empty region whose fields are all zero.
\<close>

definition EmptyRegion :: Region where
  "EmptyRegion = Region 0 0 0 0"

text \<open>
  Modelled from the spec: the comparators of the two ordered maps of free regions are
  declared in the missing header. The by-width map orders its keys by width, then
  height, then x, then y; the by-height map by height, then width, then x, then y.
\<close>

definition WidthThenHeightCmp :: "Region \<Rightarrow> Region \<Rightarrow> bool" where
  "WidthThenHeightCmp R0 R1 =
     (width R0 < width R1 \<or>
      (width R0 = width R1 \<and>
       (height R0 < height R1 \<or>
        (height R0 = height R1 \<and>
         (rx R0 < rx R1 \<or> (rx R0 = rx R1 \<and> ry R0 < ry R1))))))"

definition HeightThenWidthCmp :: "Region \<Rightarrow> Region \<Rightarrow> bool" where
  "HeightThenWidthCmp R0 R1 =
     (height R0 < height R1 \<or>
      (height R0 = height R1 \<and>
       (width R0 < width R1 \<or>
        (width R0 = width R1 \<and>
         (rx R0 < rx R1 \<or> (rx R0 = rx R1 \<and> ry R0 < ry R1))))))"

text \<open>
  Modelled from the spec: a \<^verbatim>\<open>Node\<close> of the partition tree (declared in the missing
  header) has its region \<^verbatim>\<open>R\<close>, the flag \<^verbatim>\<open>IsAllocated\<close> and an array of
  \<^verbatim>\<open>NumChildren\<close> children, which it owns. The tree is the datatype; the
  \<^verbatim>\<open>Parent\<close> back-pointer of a node is its position in the tree.
\<close>

datatype Node = Node (R: Region) (IsAllocated: bool) (Children: "Node list")

text \<open>
  A \<^verbatim>\<open>Node*\<close> is the path from the root to the node: the child indices, the root's
  first. A node keeps its path while it lives, as it keeps its address: the children
  arrays are created by \<^verbatim>\<open>Split\<close> and destroyed by \<^verbatim>\<open>MergeChildren\<close> as a
  whole. \<^verbatim>\<open>nullptr\<close> is \<open>None\<close> of \<open>NodePtr option\<close>.
\<close>

type_synonym NodePtr = "nat list"

text \<open>Dereferencing a pointer; \<open>None\<close> when it points to no node of the tree.\<close>

fun node_at :: "Node \<Rightarrow> NodePtr \<Rightarrow> Node option" where
  "node_at n [] = Some n"
| "node_at (Node r a cs) (i # p) = (if i < length cs then node_at (cs ! i) p else None)"

text \<open>Writing through a pointer: \<^verbatim>\<open>*p = n'\<close>. A pointer to no node writes nothing.\<close>

fun replace_at :: "NodePtr \<Rightarrow> Node \<Rightarrow> Node \<Rightarrow> Node" where
  "replace_at [] n' n = n'"
| "replace_at (i # p) n' (Node r a cs) =
     (if i < length cs then Node r a (cs[i := replace_at p n' (cs ! i)]) else Node r a cs)"

text \<open>
  \<^verbatim>\<open>N->Parent\<close>, which \<^verbatim>\<open>Split\<close> sets to the node that is split: the path
  without its last index. The root's parent is \<^verbatim>\<open>nullptr\<close>.
\<close>

definition Parent :: "NodePtr \<Rightarrow> NodePtr option" where
  "Parent N = (if N = [] then None else Some (butlast N))"

text \<open>
  Modelled from the spec: \<^verbatim>\<open>Node::HasChildren\<close> (missing header); a node has
  children iff it is internal, that is, iff \<^verbatim>\<open>NumChildren\<close> is not zero.
\<close>

definition HasChildren :: "Node \<Rightarrow> bool" where
  "HasChildren n = (Children n \<noteq> [])"

text \<open>
  \<^verbatim>\<open>Node::Split\<close>: the node gets one fresh child for each region, in order; a fresh
  node is not allocated and has no children.
\<close>

definition Split :: "Region list \<Rightarrow> Node \<Rightarrow> Node" where
  "Split Regions n = Node (R n) (IsAllocated n) (map (\<lambda>r. Node r False []) Regions)"

text \<open>
  \<^verbatim>\<open>Node::CanMergeChildren\<close>: the loop
  \<^verbatim>\<open>for (i = 0; i < NumChildren && CanMerge; ++i) CanMerge = !Child(i).IsAllocated && !Child(i).HasChildren()\<close>,
  over the children still to visit.
\<close>

fun CanMergeLoop :: "Node list \<Rightarrow> bool \<Rightarrow> bool" where
  "CanMergeLoop [] CanMerge = CanMerge"
| "CanMergeLoop (c # cs) CanMerge =
     (if CanMerge then CanMergeLoop cs (\<not> IsAllocated c \<and> \<not> HasChildren c) else CanMerge)"

definition CanMergeChildren :: "Node \<Rightarrow> bool" where
  "CanMergeChildren n = CanMergeLoop (Children n) True"

text \<open>\<^verbatim>\<open>Node::MergeChildren\<close>: \<^verbatim>\<open>Children.reset(); NumChildren = 0\<close>.\<close>

definition MergeChildren :: "Node \<Rightarrow> Node" where
  "MergeChildren n = Node (R n) (IsAllocated n) []"

subsection \<open>The three indices\<close>

text \<open>
  A \<^verbatim>\<open>std::map<Region, Node*, Cmp>\<close> is the list of its entries in key order. An
  iterator is the list of the entries from its position on; \<^verbatim>\<open>end()\<close> is \<open>[]\<close>
  and \<^verbatim>\<open>++it\<close> drops the first entry.
\<close>

type_synonym FreeMap = "(Region \<times> NodePtr) list"

fun lower_bound :: "(Region \<Rightarrow> Region \<Rightarrow> bool) \<Rightarrow> Region \<Rightarrow> FreeMap \<Rightarrow> FreeMap" where
  "lower_bound cmp k [] = []"
| "lower_bound cmp k (e # m) = (if cmp (fst e) k then lower_bound cmp k m else e # m)"

text \<open>\<^verbatim>\<open>emplace\<close> keeps the entry of a key that is already there.\<close>

fun map_emplace :: "(Region \<Rightarrow> Region \<Rightarrow> bool) \<Rightarrow> Region \<Rightarrow> NodePtr \<Rightarrow> FreeMap \<Rightarrow> FreeMap" where
  "map_emplace cmp k v [] = [(k, v)]"
| "map_emplace cmp k v (e # m) =
     (if cmp k (fst e) then (k, v) # e # m
      else if cmp (fst e) k then e # map_emplace cmp k v m
      else e # m)"

fun map_erase :: "(Region \<Rightarrow> Region \<Rightarrow> bool) \<Rightarrow> Region \<Rightarrow> FreeMap \<Rightarrow> FreeMap" where
  "map_erase cmp k [] = []"
| "map_erase cmp k (e # m) =
     (if cmp k (fst e) \<or> cmp (fst e) k then e # map_erase cmp k m else m)"

text \<open>The \<^verbatim>\<open>std::unordered_map\<close> of the allocated regions is a partial map.\<close>

definition hash_emplace :: "Region \<Rightarrow> NodePtr \<Rightarrow> (Region \<rightharpoonup> NodePtr) \<Rightarrow> (Region \<rightharpoonup> NodePtr)" where
  "hash_emplace k v m = (case m k of None \<Rightarrow> m(k \<mapsto> v) | Some _ \<Rightarrow> m)"

text \<open>
  Modelled from the spec: the members of \<^verbatim>\<open>DynamicAtlasManager\<close> are declared in
  the missing header: the size of the atlas, the root of the partition tree, which the
  manager owns, the two ordered maps of the free leaves and the map from the region of
  an allocated leaf to the leaf.
\<close>

record Manager =
  m_Width :: Uint32
  m_Height :: Uint32
  m_Root :: Node
  m_FreeRegionsByWidth :: FreeMap
  m_FreeRegionsByHeight :: FreeMap
  m_AllocatedRegions :: "Region \<rightharpoonup> NodePtr"

section \<open>The operations\<close>

text \<open>
  The checks \<^verbatim>\<open>VERIFY\<close>, \<^verbatim>\<open>VERIFY_EXPR\<close> and \<^verbatim>\<open>DEV_CHECK_ERR\<close> and the
  \<^verbatim>\<open>Dbg...\<close> functions exist in debug builds only; the model is the release build.

  A reference \<^verbatim>\<open>Node&\<close> is passed as the pointer together with the node it points to.
  \<^verbatim>\<open>RegisterNode\<close> stores the pointer and reads \<^verbatim>\<open>N.R\<close> and
  \<^verbatim>\<open>N.IsAllocated\<close>; \<^verbatim>\<open>UnregisterNode\<close> only reads.
\<close>

definition RegisterNode :: "NodePtr \<Rightarrow> Node \<Rightarrow> Manager \<Rightarrow> Manager" where
  "RegisterNode pN N s =
     (if IsAllocated N
      then s\<lparr>m_AllocatedRegions := hash_emplace (R N) pN (m_AllocatedRegions s)\<rparr>
      else s\<lparr>m_FreeRegionsByWidth := map_emplace WidthThenHeightCmp (R N) pN (m_FreeRegionsByWidth s),
             m_FreeRegionsByHeight := map_emplace HeightThenWidthCmp (R N) pN (m_FreeRegionsByHeight s)\<rparr>)"

definition UnregisterNode :: "Node \<Rightarrow> Manager \<Rightarrow> Manager" where
  "UnregisterNode N s =
     (if IsAllocated N
      then s\<lparr>m_AllocatedRegions := (m_AllocatedRegions s)(R N := None)\<rparr>
      else s\<lparr>m_FreeRegionsByWidth := map_erase WidthThenHeightCmp (R N) (m_FreeRegionsByWidth s),
             m_FreeRegionsByHeight := map_erase HeightThenWidthCmp (R N) (m_FreeRegionsByHeight s)\<rparr>)"

text \<open>
  Modelled from the spec: \<^verbatim>\<open>Node::ProcessChildren(F)\<close> (missing header) is the
  visitor over the children, run at once: it calls \<^verbatim>\<open>F(Child(i))\<close> for
  \<^verbatim>\<open>i = 0 .. NumChildren - 1\<close>. The handlers of this file change the manager.
\<close>

definition ProcessChildren ::
    "(NodePtr \<Rightarrow> Node \<Rightarrow> Manager \<Rightarrow> Manager) \<Rightarrow> NodePtr \<Rightarrow> Node \<Rightarrow> Manager \<Rightarrow> Manager" where
  "ProcessChildren F pN N s =
     fold (\<lambda>i. F (pN @ [i]) (Children N ! i)) [0..<length (Children N)] s"

text \<open>The constructor: the root covers the atlas and is registered as free.\<close>

definition DynamicAtlasManager :: "Uint32 \<Rightarrow> Uint32 \<Rightarrow> Manager" where
  "DynamicAtlasManager Width Height =
     RegisterNode [] (Node (Region 0 0 Width Height) False [])
       \<lparr>m_Width = Width, m_Height = Height,
        m_Root = Node (Region 0 0 Width Height) False [],
        m_FreeRegionsByWidth = [], m_FreeRegionsByHeight = [],
        m_AllocatedRegions = Map.empty\<rparr>"

subsection \<open>Allocate\<close>

text \<open>The two searches at the start of \<^verbatim>\<open>Allocate\<close>: the iterators \<^verbatim>\<open>it_w\<close>, \<^verbatim>\<open>it_h\<close>.\<close>

definition FindByWidth :: "Uint32 \<Rightarrow> Uint32 \<Rightarrow> Manager \<Rightarrow> FreeMap" where
  "FindByWidth Width Height s =
     dropWhile (\<lambda>e. height (fst e) < Height)
       (lower_bound WidthThenHeightCmp (Region 0 0 Width 0) (m_FreeRegionsByWidth s))"

definition FindByHeight :: "Uint32 \<Rightarrow> Uint32 \<Rightarrow> Manager \<Rightarrow> FreeMap" where
  "FindByHeight Width Height s =
     dropWhile (\<lambda>e. width (fst e) < Width)
       (lower_bound HeightThenWidthCmp (Region 0 0 0 Height) (m_FreeRegionsByHeight s))"

text \<open>
  \<^verbatim>\<open>it != end() ? it->first.width * it->first.height : 0\<close>: a product of
  \<^verbatim>\<open>Uint32\<close>, which wraps around.
\<close>

definition IterArea :: "FreeMap \<Rightarrow> Uint32" where
  "IterArea it = (case it of [] \<Rightarrow> 0 | e # _ \<Rightarrow> width (fst e) * height (fst e))"

definition IterSecond :: "FreeMap \<Rightarrow> NodePtr option" where
  "IterSecond it = (case it of [] \<Rightarrow> None | e # _ \<Rightarrow> Some (snd e))"

text \<open>
  The choice of \<^verbatim>\<open>pSrcNode\<close>; \<open>None\<close> is the last branch, where
  \<^verbatim>\<open>Allocate\<close> returns \<^verbatim>\<open>Region{}\<close>.
\<close>

definition SelectSource :: "FreeMap \<Rightarrow> FreeMap \<Rightarrow> NodePtr option" where
  "SelectSource it_w it_h =
     (let AreaW = IterArea it_w; AreaH = IterArea it_h
      in if AreaW > 0 \<and> AreaH > 0 then (if AreaW < AreaH then IterSecond it_w else IterSecond it_h)
         else if AreaW > 0 then IterSecond it_w
         else if AreaH > 0 then IterSecond it_h
         else None)"

text \<open>The cascade that splits the source node around the placed rectangle.\<close>

definition SplitSource :: "Uint32 \<Rightarrow> Uint32 \<Rightarrow> Node \<Rightarrow> Node" where
  "SplitSource Width Height src =
     (let r = R src
      in if width r > Width \<and> height r > Height then
           (if width r > height r then
              Split [Region (rx r) (ry r) Width Height,
                     Region (rx r + Width) (ry r) (width r - Width) (height r),
                     Region (rx r) (ry r + Height) Width (height r - Height)] src
            else
              Split [Region (rx r) (ry r) Width Height,
                     Region (rx r) (ry r + Height) (width r) (height r - Height),
                     Region (rx r + Width) (ry r) (width r - Width) Height] src)
         else if width r > Width then
           Split [Region (rx r) (ry r) Width Height,
                  Region (rx r + Width) (ry r) (width r - Width) (height r)] src
         else if height r > Height then
           Split [Region (rx r) (ry r) Width Height,
                  Region (rx r) (ry r + Height) (width r) (height r - Height)] src
         else src)"

text \<open>\<^verbatim>\<open>pSrcNode->Child(0).IsAllocated = true\<close>\<close>

definition AllocateChild0 :: "Node \<Rightarrow> Node" where
  "AllocateChild0 n =
     Node (R n) (IsAllocated n)
       ((Children n)[0 := Node (R (Children n ! 0)) True (Children (Children n ! 0))])"

text \<open>
  The rest of \<^verbatim>\<open>Allocate\<close>, from \<^verbatim>\<open>UnregisterNode(*pSrcNode)\<close> on. The result
  is the returned region and the manager afterwards; \<open>None\<close> when \<^verbatim>\<open>pSrcNode\<close>
  points to no node.
\<close>

definition PlaceRegion :: "NodePtr \<Rightarrow> Uint32 \<Rightarrow> Uint32 \<Rightarrow> Manager \<Rightarrow> (Region \<times> Manager) option" where
  "PlaceRegion pSrcNode Width Height s =
     (case node_at (m_Root s) pSrcNode of
        None \<Rightarrow> None
      | Some src \<Rightarrow>
          (let s1 = UnregisterNode src s;
               src1 = SplitSource Width Height src
           in if HasChildren src1 then
                (let src2 = AllocateChild0 src1;
                     s2 = s1\<lparr>m_Root := replace_at pSrcNode src2 (m_Root s1)\<rparr>;
                     s3 = ProcessChildren RegisterNode pSrcNode src2 s2
                 in Some (R (Children src2 ! 0), s3))
              else
                (let src2 = Node (R src1) True (Children src1);
                     s2 = s1\<lparr>m_Root := replace_at pSrcNode src2 (m_Root s1)\<rparr>;
                     s3 = RegisterNode pSrcNode src2 s2
                 in Some (R src2, s3))))"

definition SourceNode :: "Uint32 \<Rightarrow> Uint32 \<Rightarrow> Manager \<Rightarrow> NodePtr option" where
  "SourceNode Width Height s =
     SelectSource (FindByWidth Width Height s) (FindByHeight Width Height s)"

definition Allocate :: "Uint32 \<Rightarrow> Uint32 \<Rightarrow> Manager \<Rightarrow> (Region \<times> Manager) option" where
  "Allocate Width Height s =
     (case SourceNode Width Height s of
        None \<Rightarrow> Some (EmptyRegion, s)
      | Some pSrcNode \<Rightarrow> PlaceRegion pSrcNode Width Height s)"

subsection \<open>Free\<close>

text \<open>One round of the merge loop of \<^verbatim>\<open>Free\<close>, for a node \<open>N\<close> at \<open>pN\<close>.\<close>

definition MergeStep :: "NodePtr \<Rightarrow> Node \<Rightarrow> Manager \<Rightarrow> Manager" where
  "MergeStep pN N s =
     (let s1 = ProcessChildren (\<lambda>pC C. UnregisterNode C) pN N s;
          N1 = MergeChildren N;
          s2 = s1\<lparr>m_Root := replace_at pN N1 (m_Root s1)\<rparr>
      in RegisterNode pN N1 s2)"

text \<open>
  \<^verbatim>\<open>while (N != nullptr && N->CanMergeChildren()) { ...; N = N->Parent; }\<close>.
  Every round moves one node up, so the loop ends.
\<close>

function MergeLoop :: "NodePtr option \<Rightarrow> Manager \<Rightarrow> Manager option" where
  "MergeLoop None s = Some s"
| "MergeLoop (Some pN) s =
     (case node_at (m_Root s) pN of
        None \<Rightarrow> None
      | Some N \<Rightarrow>
          if CanMergeChildren N then MergeLoop (Parent pN) (MergeStep pN N s) else Some s)"
  by pat_completeness auto
termination
  by (relation "measure (\<lambda>(N, s). case N of None \<Rightarrow> 0 | Some p \<Rightarrow> Suc (length p))")
     (auto simp: Parent_def)

text \<open>
  \<^verbatim>\<open>Free(Region&& R)\<close>. The result has the flag that tells whether
  \<^verbatim>\<open>UNEXPECTED\<close> reported the region as not allocated, the caller's region after the
  call, and the manager afterwards.
\<close>

definition Free :: "Region \<Rightarrow> Manager \<Rightarrow> (bool \<times> Region \<times> Manager) option" where
  "Free r s =
     (case m_AllocatedRegions s r of
        None \<Rightarrow> Some (True, r, s)
      | Some pN \<Rightarrow>
          (case node_at (m_Root s) pN of
             None \<Rightarrow> None
           | Some N \<Rightarrow>
               (let s1 = UnregisterNode N s;
                    N1 = Node (R N) False (Children N);
                    s2 = s1\<lparr>m_Root := replace_at pN N1 (m_Root s1)\<rparr>;
                    s3 = RegisterNode pN N1 s2
                in case MergeLoop (Parent pN) s3 of
                     None \<Rightarrow> None
                   | Some s4 \<Rightarrow> Some (False, InvalidRegion, s4))))"

section \<open>Legal call sequences and the state they keep\<close>

text \<open>
  The states a manager reaches from its constructor by calls of \<^verbatim>\<open>Allocate\<close> with
  positive dimensions and calls of \<^verbatim>\<open>Free\<close> that return.
\<close>

inductive reachable :: "Manager \<Rightarrow> bool" where
  reach_new: "reachable (DynamicAtlasManager W H)"
| reach_Allocate:
    "reachable s \<Longrightarrow> 0 < w \<Longrightarrow> 0 < h \<Longrightarrow> Allocate w h s = Some (r, s') \<Longrightarrow> reachable s'"
| reach_Free:
    "reachable s \<Longrightarrow> Free r s = Some (u, r', s') \<Longrightarrow> reachable s'"

text \<open>
  Geometry of regions as sets of texels, read without wrap-around: \<open>inside r p\<close> when
  \<open>r\<close> lies within \<open>p\<close>, \<open>overlap a b\<close> when the two half-open rectangles share a texel.
\<close>

definition inside :: "Region \<Rightarrow> Region \<Rightarrow> bool" where
  "inside r p =
     (unat (rx p) \<le> unat (rx r) \<and> unat (rx r) + unat (width r) \<le> unat (rx p) + unat (width p) \<and>
      unat (ry p) \<le> unat (ry r) \<and> unat (ry r) + unat (height r) \<le> unat (ry p) + unat (height p))"

definition overlap :: "Region \<Rightarrow> Region \<Rightarrow> bool" where
  "overlap a b =
     (unat (rx a) < unat (rx b) + unat (width b) \<and> unat (rx b) < unat (rx a) + unat (width a) \<and>
      unat (ry a) < unat (ry b) + unat (height b) \<and> unat (ry b) < unat (ry a) + unat (height a))"

text \<open>The free leaf \<open>r\<close> can hold a rectangle of \<open>w\<close> by \<open>h\<close>.\<close>

definition fits :: "Uint32 \<Rightarrow> Uint32 \<Rightarrow> Region \<Rightarrow> bool" where
  "fits w h r = (w \<le> width r \<and> h \<le> height r)"

text \<open>
  A well-formed partition tree: a node with children is not allocated, and its children
  are not empty, lie within it and do not overlap one another.
\<close>

fun wf_node :: "Node \<Rightarrow> bool" where
  "wf_node (Node r a cs) =
     (cs = [] \<or>
      (\<not> a \<and>
       (\<forall>c \<in> set cs. \<not> IsEmpty (R c) \<and> inside (R c) r \<and> wf_node c) \<and>
       (\<forall>i < length cs. \<forall>j < length cs. i \<noteq> j \<longrightarrow> \<not> overlap (R (cs ! i)) (R (cs ! j)))))"

text \<open>The free and the allocated leaves of a tree, each with its region and its pointer.\<close>

definition free_leaves :: "Node \<Rightarrow> (Region \<times> NodePtr) set" where
  "free_leaves t = {(r, p). node_at t p = Some (Node r False [])}"

definition allocated_leaves :: "Node \<Rightarrow> (Region \<times> NodePtr) set" where
  "allocated_leaves t = {(r, p). node_at t p = Some (Node r True [])}"

text \<open>
  The tree is merged as far as \<^verbatim>\<open>Free\<close> merges it, but for the node at \<open>N\<close>: no
  other node with children could have them merged.
\<close>

definition merged_but :: "NodePtr option \<Rightarrow> Node \<Rightarrow> bool" where
  "merged_but N t =
     (\<forall>p n. node_at t p = Some n \<longrightarrow> HasChildren n \<longrightarrow> CanMergeChildren n \<longrightarrow> N = Some p)"

text \<open>
  What the three indices hold: both maps of free regions hold the free leaves, in key
  order, and the map of allocated regions holds the allocated leaves.
\<close>

definition indices_ok :: "Manager \<Rightarrow> bool" where
  "indices_ok s =
     (sorted_wrt WidthThenHeightCmp (map fst (m_FreeRegionsByWidth s)) \<and>
      sorted_wrt HeightThenWidthCmp (map fst (m_FreeRegionsByHeight s)) \<and>
      set (m_FreeRegionsByWidth s) = free_leaves (m_Root s) \<and>
      set (m_FreeRegionsByHeight s) = free_leaves (m_Root s) \<and>
      Map.graph (m_AllocatedRegions s) = allocated_leaves (m_Root s))"

definition tree_ok :: "Manager \<Rightarrow> bool" where
  "tree_ok s =
     (R (m_Root s) = Region 0 0 (m_Width s) (m_Height s) \<and> wf_node (m_Root s))"

definition consistent_but :: "NodePtr option \<Rightarrow> Manager \<Rightarrow> bool" where
  "consistent_but N s = (tree_ok s \<and> indices_ok s \<and> merged_but N (m_Root s))"

definition consistent :: "Manager \<Rightarrow> bool" where
  "consistent s = consistent_but None s"

text \<open>What the maps need of a comparator: a strict linear order of the keys.\<close>

definition key_order :: "(Region \<Rightarrow> Region \<Rightarrow> bool) \<Rightarrow> bool" where
  "key_order cmp =
     ((\<forall>a. \<not> cmp a a) \<and> (\<forall>a b c. cmp a b \<longrightarrow> cmp b c \<longrightarrow> cmp a c) \<and>
      (\<forall>a b. cmp a b \<or> cmp b a \<or> a = b))"

text \<open>The indices hold the free entries \<open>F\<close> and the allocated entries \<open>A\<close>.\<close>

definition indices_hold ::
    "Manager \<Rightarrow> (Region \<times> NodePtr) set \<Rightarrow> (Region \<times> NodePtr) set \<Rightarrow> bool" where
  "indices_hold s F A =
     (sorted_wrt WidthThenHeightCmp (map fst (m_FreeRegionsByWidth s)) \<and>
      sorted_wrt HeightThenWidthCmp (map fst (m_FreeRegionsByHeight s)) \<and>
      set (m_FreeRegionsByWidth s) = F \<and>
      set (m_FreeRegionsByHeight s) = F \<and>
      Map.graph (m_AllocatedRegions s) = A)"

text \<open>The entries of a node's children, as the handlers of \<open>ProcessChildren\<close> see them.\<close>

definition child_entries :: "bool \<Rightarrow> NodePtr \<Rightarrow> Node list \<Rightarrow> nat \<Rightarrow> (Region \<times> NodePtr) set" where
  "child_entries a pN cs k = {(R (cs ! i), pN @ [i]) | i. i < k \<and> IsAllocated (cs ! i) = a}"

section \<open>Managers of the scenarios\<close>

text \<open>
  The manager of a 4 by 6 atlas after \<^verbatim>\<open>Allocate(2, 4)\<close>: its two free leaves, 2 by 4
  and 4 by 2, have the same area.
\<close>

definition tie_state :: Manager where
  "tie_state =
     \<lparr>m_Width = 4, m_Height = 6,
      m_Root = Node (Region 0 0 4 6) False
        [Node (Region 0 0 2 4) True [], Node (Region 0 4 4 2) False [],
         Node (Region 2 0 2 4) False []],
      m_FreeRegionsByWidth = [(Region 2 0 2 4, [2]), (Region 0 4 4 2, [1])],
      m_FreeRegionsByHeight = [(Region 0 4 4 2, [1]), (Region 2 0 2 4, [2])],
      m_AllocatedRegions = [Region 0 0 2 4 \<mapsto> [0]]\<rparr>"

text \<open>
  The manager of a 100 by 50 atlas after \<^verbatim>\<open>Allocate(30, 20)\<close>, and the same after
  \<^verbatim>\<open>Allocate(70, 50)\<close> has taken the whole leaf at the right.
\<close>

definition wide_state :: Manager where
  "wide_state =
     \<lparr>m_Width = 100, m_Height = 50,
      m_Root = Node (Region 0 0 100 50) False
        [Node (Region 0 0 30 20) True [], Node (Region 30 0 70 50) False [],
         Node (Region 0 20 30 30) False []],
      m_FreeRegionsByWidth = [(Region 0 20 30 30, [2]), (Region 30 0 70 50, [1])],
      m_FreeRegionsByHeight = [(Region 0 20 30 30, [2]), (Region 30 0 70 50, [1])],
      m_AllocatedRegions = [Region 0 0 30 20 \<mapsto> [0]]\<rparr>"

definition wide_state_full :: Manager where
  "wide_state_full =
     \<lparr>m_Width = 100, m_Height = 50,
      m_Root = Node (Region 0 0 100 50) False
        [Node (Region 0 0 30 20) True [], Node (Region 30 0 70 50) True [],
         Node (Region 0 20 30 30) False []],
      m_FreeRegionsByWidth = [(Region 0 20 30 30, [2])],
      m_FreeRegionsByHeight = [(Region 0 20 30 30, [2])],
      m_AllocatedRegions = [Region 0 0 30 20 \<mapsto> [0], Region 30 0 70 50 \<mapsto> [1]]\<rparr>"

text \<open>
  The manager of a 100 by 100 atlas after \<^verbatim>\<open>Allocate(0, 5)\<close>: a node of width zero
  is registered as allocated.
\<close>

definition zero_width_state :: Manager where
  "zero_width_state =
     \<lparr>m_Width = 100, m_Height = 100,
      m_Root = Node (Region 0 0 100 100) False
        [Node (Region 0 0 0 5) True [], Node (Region 0 5 100 95) False [],
         Node (Region 0 0 100 5) False []],
      m_FreeRegionsByWidth = [(Region 0 0 100 5, [2]), (Region 0 5 100 95, [1])],
      m_FreeRegionsByHeight = [(Region 0 0 100 5, [2]), (Region 0 5 100 95, [1])],
      m_AllocatedRegions = [Region 0 0 0 5 \<mapsto> [0]]\<rparr>"

text \<open>
  The manager \<open>wide_state\<close> when \<^verbatim>\<open>Free\<close> has released the leaf at \<open>(0, 0)\<close> and
  has not yet merged.
\<close>

definition wide_state_released :: Manager where
  "wide_state_released =
     \<lparr>m_Width = 100, m_Height = 50,
      m_Root = Node (Region 0 0 100 50) False
        [Node (Region 0 0 30 20) False [], Node (Region 30 0 70 50) False [],
         Node (Region 0 20 30 30) False []],
      m_FreeRegionsByWidth =
        [(Region 0 0 30 20, [0]), (Region 0 20 30 30, [2]), (Region 30 0 70 50, [1])],
      m_FreeRegionsByHeight =
        [(Region 0 0 30 20, [0]), (Region 0 20 30 30, [2]), (Region 30 0 70 50, [1])],
      m_AllocatedRegions = Map.empty\<rparr>"

section \<open>The ordered maps\<close>

lemma key_order_WidthThenHeightCmp: "key_order WidthThenHeightCmp"
proof -
  have "WidthThenHeightCmp a b \<or> WidthThenHeightCmp b a \<or> a = b" for a b
    by (cases a; cases b) (auto simp: WidthThenHeightCmp_def)
  moreover have "\<not> WidthThenHeightCmp a a" for a
    by (simp add: WidthThenHeightCmp_def)
  moreover have "WidthThenHeightCmp a b \<Longrightarrow> WidthThenHeightCmp b c \<Longrightarrow> WidthThenHeightCmp a c" for a b c
    by (auto simp: WidthThenHeightCmp_def)
  ultimately show ?thesis unfolding key_order_def by blast
qed

lemma key_order_HeightThenWidthCmp: "key_order HeightThenWidthCmp"
proof -
  have "HeightThenWidthCmp a b \<or> HeightThenWidthCmp b a \<or> a = b" for a b
    by (cases a; cases b) (auto simp: HeightThenWidthCmp_def)
  moreover have "\<not> HeightThenWidthCmp a a" for a
    by (simp add: HeightThenWidthCmp_def)
  moreover have "HeightThenWidthCmp a b \<Longrightarrow> HeightThenWidthCmp b c \<Longrightarrow> HeightThenWidthCmp a c" for a b c
    by (auto simp: HeightThenWidthCmp_def)
  ultimately show ?thesis unfolding key_order_def by blast
qed

lemma key_order_irrefl: "key_order cmp \<Longrightarrow> \<not> cmp a a"
  by (simp add: key_order_def)

lemma key_order_trans: "key_order cmp \<Longrightarrow> cmp a b \<Longrightarrow> cmp b c \<Longrightarrow> cmp a c"
  unfolding key_order_def by blast

lemma key_order_asym: "key_order cmp \<Longrightarrow> cmp a b \<Longrightarrow> \<not> cmp b a"
  unfolding key_order_def by blast

lemma key_order_total: "key_order cmp \<Longrightarrow> \<not> cmp a b \<Longrightarrow> \<not> cmp b a \<Longrightarrow> a = b"
  unfolding key_order_def by blast

lemma set_map_erase:
  assumes "key_order cmp"
  shows "sorted_wrt cmp (map fst m) \<Longrightarrow> set (map_erase cmp k m) = {e \<in> set m. fst e \<noteq> k}"
proof (induction m)
  case Nil
  then show ?case by simp
next
  case (Cons e m)
  show ?case
  proof (cases "cmp k (fst e) \<or> cmp (fst e) k")
    case True
    then have "fst e \<noteq> k" using key_order_irrefl [OF assms] by auto
    with True Cons show ?thesis by auto
  next
    case False
    then have k: "fst e = k" using key_order_total [OF assms] by blast
    have "\<forall>e' \<in> set m. fst e' \<noteq> k"
      using Cons.prems k key_order_irrefl [OF assms] by auto
    with False k show ?thesis by auto
  qed
qed

lemma sorted_map_erase:
  "sorted_wrt cmp (map fst m) \<Longrightarrow> sorted_wrt cmp (map fst (map_erase cmp k m))"
proof (induction m)
  case Nil
  then show ?case by simp
next
  case (Cons e m)
  have sub: "set (map_erase cmp k m) \<subseteq> set m" for m
    by (induction m) auto
  from Cons sub [of m] show ?case by auto
qed

lemma set_map_emplace:
  assumes "key_order cmp"
  shows "k \<notin> fst ` set m \<Longrightarrow> set (map_emplace cmp k v m) = insert (k, v) (set m)"
proof (induction m)
  case Nil
  then show ?case by simp
next
  case (Cons e m)
  from Cons.prems have ne: "fst e \<noteq> k" by auto
  then have "cmp k (fst e) \<or> cmp (fst e) k"
    using key_order_total [OF assms] by blast
  with Cons show ?case by auto
qed

lemma set_map_emplace_subset: "set (map_emplace cmp k v m) \<subseteq> insert (k, v) (set m)"
  by (induction m) auto

lemma sorted_map_emplace:
  assumes "key_order cmp"
  shows "sorted_wrt cmp (map fst m) \<Longrightarrow> sorted_wrt cmp (map fst (map_emplace cmp k v m))"
proof (induction m)
  case Nil
  then show ?case by simp
next
  case (Cons e m)
  show ?case
  proof (cases "cmp k (fst e)")
    case True
    then have "\<forall>e' \<in> set m. cmp k (fst e')"
      using Cons.prems key_order_trans [OF assms] by auto
    with True Cons.prems show ?thesis by simp
  next
    case False
    show ?thesis
    proof (cases "cmp (fst e) k")
      case True
      have "\<forall>e' \<in> set (map_emplace cmp k v m). cmp (fst e) (fst e')"
        using set_map_emplace_subset [of cmp k v m] True Cons.prems by auto
      with False True Cons show ?thesis by simp
    next
      case False
      with \<open>\<not> cmp k (fst e)\<close> Cons.prems show ?thesis by simp
    qed
  qed
qed

lemma sorted_keys_unique:
  assumes "key_order cmp"
  shows "sorted_wrt cmp (map fst xs) \<Longrightarrow> sorted_wrt cmp (map fst ys) \<Longrightarrow> set xs = set ys \<Longrightarrow> xs = ys"
proof (induction xs arbitrary: ys)
  case Nil
  then show ?case by simp
next
  case (Cons x xs)
  then obtain y ys' where ys: "ys = y # ys'" by (cases ys) auto
  have irr: "\<not> cmp a a" for a by (rule key_order_irrefl [OF assms])
  have asym: "cmp a b \<Longrightarrow> \<not> cmp b a" for a b by (rule key_order_asym [OF assms])
  have xy: "x = y"
  proof (rule ccontr)
    assume "x \<noteq> y"
    then have "x \<in> set ys'" "y \<in> set xs" using Cons.prems(3) ys by auto
    then have "cmp (fst y) (fst x)" "cmp (fst x) (fst y)"
      using Cons.prems(1,2) ys by auto
    then show False using asym by blast
  qed
  have "x \<notin> set xs" "y \<notin> set ys'"
    using Cons.prems(1,2) ys irr by auto
  then have "set xs = set ys'" using Cons.prems(3) ys xy by auto
  then have "xs = ys'" using Cons.IH [of ys'] Cons.prems(1,2) ys by simp
  with xy ys show ?case by simp
qed

lemma sorted_keys_inj:
  assumes "key_order cmp" "sorted_wrt cmp (map fst m)" "(k, v) \<in> set m" "(k, v') \<in> set m"
  shows "v = v'"
  using assms(2-)
proof (induction m)
  case Nil
  then show ?case by simp
next
  case (Cons e m)
  then show ?case using key_order_irrefl [OF assms(1)] by (auto simp: rev_image_eqI)
qed

subsection \<open>The searches of Allocate\<close>

lemma WidthThenHeightCmp_probe [simp]: "WidthThenHeightCmp r (Region 0 0 w 0) = (width r < w)"
  by (auto simp: WidthThenHeightCmp_def)

lemma HeightThenWidthCmp_probe [simp]: "HeightThenWidthCmp r (Region 0 0 0 h) = (height r < h)"
  by (auto simp: HeightThenWidthCmp_def)

lemma lower_bound_width:
  "sorted_wrt WidthThenHeightCmp (map fst m) \<Longrightarrow>
   lower_bound WidthThenHeightCmp (Region 0 0 w 0) m = filter (\<lambda>e. w \<le> width (fst e)) m"
proof (induction m)
  case Nil
  then show ?case by simp
next
  case (Cons e m)
  show ?case
  proof (cases "width (fst e) < w")
    case True
    with Cons show ?thesis by simp
  next
    case False
    have "\<forall>e' \<in> set m. w \<le> width (fst e')"
      using Cons.prems False by (auto simp: WidthThenHeightCmp_def)
    then have "filter (\<lambda>e. w \<le> width (fst e)) m = m" by (simp add: filter_id_conv)
    with False show ?thesis by simp
  qed
qed

lemma lower_bound_height:
  "sorted_wrt HeightThenWidthCmp (map fst m) \<Longrightarrow>
   lower_bound HeightThenWidthCmp (Region 0 0 0 h) m = filter (\<lambda>e. h \<le> height (fst e)) m"
proof (induction m)
  case Nil
  then show ?case by simp
next
  case (Cons e m)
  show ?case
  proof (cases "height (fst e) < h")
    case True
    with Cons show ?thesis by simp
  next
    case False
    have "\<forall>e' \<in> set m. h \<le> height (fst e')"
      using Cons.prems False by (auto simp: HeightThenWidthCmp_def)
    then have "filter (\<lambda>e. h \<le> height (fst e)) m = m" by (simp add: filter_id_conv)
    with False show ?thesis by simp
  qed
qed

lemma dropWhile_filter_head:
  "dropWhile P (filter Q m) = e # it \<Longrightarrow> e \<in> set m \<and> Q e \<and> \<not> P e"
proof -
  assume a: "dropWhile P (filter Q m) = e # it"
  then have "e \<in> set (dropWhile P (filter Q m))" by simp
  then have "e \<in> set (filter Q m)" by (rule set_dropWhileD)
  moreover have "\<not> P e" using a hd_dropWhile [of P "filter Q m"] by auto
  ultimately show ?thesis by simp
qed

lemma dropWhile_filter_Nil:
  "dropWhile P (filter Q m) = [] \<longleftrightarrow> (\<forall>e \<in> set m. Q e \<longrightarrow> P e)"
  by (auto simp: dropWhile_eq_Nil_conv)

lemma FindByWidth_head:
  assumes "sorted_wrt WidthThenHeightCmp (map fst (m_FreeRegionsByWidth s))"
    and "FindByWidth w h s = e # it"
  shows "e \<in> set (m_FreeRegionsByWidth s) \<and> fits w h (fst e)"
  using dropWhile_filter_head [of "\<lambda>e. height (fst e) < h" "\<lambda>e. w \<le> width (fst e)" "m_FreeRegionsByWidth s" e it]
    assms
  by (simp add: FindByWidth_def lower_bound_width fits_def not_less)

lemma FindByHeight_head:
  assumes "sorted_wrt HeightThenWidthCmp (map fst (m_FreeRegionsByHeight s))"
    and "FindByHeight w h s = e # it"
  shows "e \<in> set (m_FreeRegionsByHeight s) \<and> fits w h (fst e)"
  using dropWhile_filter_head [of "\<lambda>e. width (fst e) < w" "\<lambda>e. h \<le> height (fst e)" "m_FreeRegionsByHeight s" e it]
    assms
  by (simp add: FindByHeight_def lower_bound_height fits_def not_less)

lemma FindByWidth_Nil:
  assumes "sorted_wrt WidthThenHeightCmp (map fst (m_FreeRegionsByWidth s))"
  shows "FindByWidth w h s = [] \<longleftrightarrow> (\<forall>e \<in> set (m_FreeRegionsByWidth s). \<not> fits w h (fst e))"
  using assms by (auto simp: FindByWidth_def lower_bound_width dropWhile_filter_Nil fits_def)

lemma FindByHeight_Nil:
  assumes "sorted_wrt HeightThenWidthCmp (map fst (m_FreeRegionsByHeight s))"
  shows "FindByHeight w h s = [] \<longleftrightarrow> (\<forall>e \<in> set (m_FreeRegionsByHeight s). \<not> fits w h (fst e))"
  using assms by (auto simp: FindByHeight_def lower_bound_height dropWhile_filter_Nil fits_def)

section \<open>Pointers into the tree\<close>

lemma node_at_append:
  "node_at t (p @ q) = (case node_at t p of None \<Rightarrow> None | Some n \<Rightarrow> node_at n q)"
  by (induction t p rule: node_at.induct) auto

lemma node_at_leaf: "node_at (Node r a []) p = Some n \<longleftrightarrow> p = [] \<and> n = Node r a []"
  by (cases p) auto

lemma node_at_snoc:
  "node_at t (p @ [i]) = Some c \<longleftrightarrow>
   (\<exists>n. node_at t p = Some n \<and> i < length (Children n) \<and> c = Children n ! i)"
proof -
  have "node_at n [i] = Some c \<longleftrightarrow> i < length (Children n) \<and> c = Children n ! i" for n
    by (cases n) auto
  then show ?thesis by (auto simp: node_at_append split: option.splits)
qed

lemma node_at_replace_above:
  "node_at (replace_at (q @ p') n' t) q = map_option (replace_at p' n') (node_at t q)"
proof (induction q arbitrary: t)
  case Nil
  then show ?case by simp
next
  case (Cons i q)
  then show ?case by (cases t) auto
qed

lemma node_at_replace_self:
  "node_at t p = Some n \<Longrightarrow> node_at (replace_at p n' t) p = Some n'"
  using node_at_replace_above [of p "[]" n' t] by simp

lemma node_at_replace_below:
  "node_at t p = Some n \<Longrightarrow> node_at (replace_at p n' t) (p @ q) = node_at n' q"
  by (simp add: node_at_append node_at_replace_self)

lemma node_at_replace_diverge:
  "b \<noteq> c \<Longrightarrow> node_at (replace_at (as @ b # bs) n' t) (as @ c # cs) = node_at t (as @ c # cs)"
proof (induction as arbitrary: t)
  case Nil
  then show ?case by (cases t) auto
next
  case (Cons i as)
  then show ?case by (cases t) auto
qed

lemma node_at_replace_parallel:
  "p \<parallel> q \<Longrightarrow> node_at (replace_at p n' t) q = node_at t q"
  using parallel_decomp [of p q] node_at_replace_diverge by fastforce

lemma replace_at_id: "node_at t p = Some n \<Longrightarrow> replace_at p n t = t"
proof (induction p arbitrary: t)
  case Nil
  then show ?case by simp
next
  case (Cons i p)
  then show ?case by (cases t) (auto split: if_splits)
qed

lemma replace_replace_below:
  "replace_at p m (replace_at (p @ q) x t) = replace_at p m t"
proof (induction p arbitrary: t)
  case Nil
  then show ?case by simp
next
  case (Cons i p)
  then show ?case by (cases t) auto
qed

lemma replace_at_R:
  "node_at t p = Some n \<Longrightarrow> R n' = R n \<Longrightarrow> R (replace_at p n' t) = R t"
  by (cases p; cases t) auto

lemma replace_at_fields:
  "p \<noteq> [] \<Longrightarrow> R (replace_at p n' t) = R t \<and> IsAllocated (replace_at p n' t) = IsAllocated t \<and>
     length (Children (replace_at p n' t)) = length (Children t)"
  by (cases p; cases t) auto

lemma replace_at_Children_empty:
  "p \<noteq> [] \<Longrightarrow> Children (replace_at p n' t) = [] \<longleftrightarrow> Children t = []"
  using replace_at_fields [of p n' t] by (metis length_0_conv)

subsection \<open>Merging\<close>

lemma CanMergeLoop_iff:
  "CanMergeLoop cs b \<longleftrightarrow> b \<and> (\<forall>c \<in> set cs. \<not> IsAllocated c \<and> \<not> HasChildren c)"
  by (induction cs b rule: CanMergeLoop.induct) auto

lemma CanMergeChildren_iff:
  "CanMergeChildren n \<longleftrightarrow> (\<forall>c \<in> set (Children n). \<not> IsAllocated c \<and> Children c = [])"
  by (simp add: CanMergeChildren_def CanMergeLoop_iff HasChildren_def)

section \<open>Geometry\<close>

lemma inside_refl [simp]: "inside r r"
  by (simp add: inside_def)

lemma inside_trans: "inside a b \<Longrightarrow> inside b c \<Longrightarrow> inside a c"
  by (auto simp: inside_def)

lemma overlap_self: "\<not> IsEmpty a \<Longrightarrow> overlap a a"
  by (auto simp: overlap_def IsEmpty_def unat_gt_0)

lemma overlap_sym: "overlap a b \<Longrightarrow> overlap b a"
  by (auto simp: overlap_def)

lemma overlap_inside1: "overlap a b \<Longrightarrow> inside a r \<Longrightarrow> overlap r b"
  by (auto simp: overlap_def inside_def)

lemma overlap_inside2: "overlap a b \<Longrightarrow> inside b r \<Longrightarrow> overlap a r"
  by (auto simp: overlap_def inside_def)

lemma IsEmpty_unat: "IsEmpty a \<longleftrightarrow> unat (width a) = 0 \<or> unat (height a) = 0"
  by (simp add: IsEmpty_def unat_eq_zero)

lemma inside_nonempty: "inside a r \<Longrightarrow> \<not> IsEmpty a \<Longrightarrow> \<not> IsEmpty r"
  by (auto simp: inside_def IsEmpty_unat)

lemma wf_node_at:
  "wf_node t \<Longrightarrow> node_at t p = Some n \<Longrightarrow> wf_node n \<and> inside (R n) (R t)"
proof (induction p arbitrary: t)
  case Nil
  then show ?case by simp
next
  case (Cons i p)
  obtain r a cs where t: "t = Node r a cs" by (cases t)
  with Cons.prems have i: "i < length cs" and n: "node_at (cs ! i) p = Some n"
    by (auto split: if_splits)
  then have c: "cs ! i \<in> set cs" by simp
  with Cons.prems(1) t have "wf_node (cs ! i)" "inside (R (cs ! i)) r" by auto
  with Cons.IH [OF _ n] t show ?case by (auto intro: inside_trans)
qed

lemma wf_node_nonempty:
  "wf_node t \<Longrightarrow> node_at t p = Some n \<Longrightarrow> p \<noteq> [] \<Longrightarrow> \<not> IsEmpty (R n)"
proof (induction p arbitrary: t)
  case Nil
  then show ?case by simp
next
  case (Cons i p)
  obtain r a cs where t: "t = Node r a cs" by (cases t)
  with Cons.prems have i: "i < length cs" and n: "node_at (cs ! i) p = Some n"
    by (auto split: if_splits)
  then have c: "cs ! i \<in> set cs" by simp
  with Cons.prems(1) t have wf: "wf_node (cs ! i)" and ne: "\<not> IsEmpty (R (cs ! i))" by auto
  show ?case
  proof (cases "p = []")
    case True
    with n ne show ?thesis by simp
  next
    case False
    with Cons.IH [OF wf n] show ?thesis by simp
  qed
qed

lemma wf_diverge_no_overlap:
  "wf_node t \<Longrightarrow> b \<noteq> c \<Longrightarrow> node_at t (as @ b # bs) = Some n \<Longrightarrow>
   node_at t (as @ c # cs) = Some m \<Longrightarrow> \<not> overlap (R n) (R m)"
proof (induction as arbitrary: t)
  case Nil
  obtain r a ch where t: "t = Node r a ch" by (cases t)
  with Nil have b: "b < length ch" "node_at (ch ! b) bs = Some n"
    and c: "c < length ch" "node_at (ch ! c) cs = Some m"
    by (auto split: if_splits)
  from Nil.prems(1) t b(1) c(1) have wb: "wf_node (ch ! b)" and wc: "wf_node (ch ! c)"
    by (auto simp: nth_mem)
  from Nil.prems(1,2) t b(1) c(1) have no: "\<not> overlap (R (ch ! b)) (R (ch ! c))"
    by auto
  have "inside (R n) (R (ch ! b))" "inside (R m) (R (ch ! c))"
    using wf_node_at [OF wb b(2)] wf_node_at [OF wc c(2)] by simp_all
  with no show ?case
    using overlap_inside1 overlap_inside2 by blast
next
  case (Cons i as)
  obtain r a ch where t: "t = Node r a ch" by (cases t)
  with Cons.prems have i: "i < length ch" by (auto split: if_splits)
  with Cons.prems(1) t have "wf_node (ch ! i)" by (auto simp: nth_mem)
  with Cons t i show ?case by auto
qed

lemma wf_parallel_no_overlap:
  "wf_node t \<Longrightarrow> p \<parallel> q \<Longrightarrow> node_at t p = Some n \<Longrightarrow> node_at t q = Some m \<Longrightarrow>
   \<not> overlap (R n) (R m)"
  using parallel_decomp [of p q] wf_diverge_no_overlap by blast

lemma leaf_not_above:
  "node_at t p = Some n \<Longrightarrow> Children n = [] \<Longrightarrow> prefix p q \<Longrightarrow> node_at t q = Some m \<Longrightarrow> q = p"
proof -
  assume a: "node_at t p = Some n" "Children n = []" "prefix p q" "node_at t q = Some m"
  then obtain q' where q: "q = p @ q'" by (auto simp: prefix_def)
  with a have "node_at n q' = Some m" by (simp add: node_at_append)
  with a(2) have "q' = []" by (cases n; cases q') auto
  with q show ?thesis by simp
qed

lemma leaves_apart:
  assumes "wf_node t" "node_at t p = Some n" "Children n = []"
    "node_at t q = Some m" "Children m = []" "p \<noteq> q"
  shows "p \<parallel> q \<and> \<not> overlap (R n) (R m) \<and> R n \<noteq> R m"
proof -
  have par: "p \<parallel> q"
    using leaf_not_above [OF assms(2,3) _ assms(4)] leaf_not_above [OF assms(4,5) _ assms(2)]
      assms(6) by (auto simp: parallel_def)
  then have no: "\<not> overlap (R n) (R m)"
    using wf_parallel_no_overlap assms by blast
  from par have "p \<noteq> []" by auto
  then have "overlap (R n) (R n)"
    using wf_node_nonempty [OF assms(1,2)] overlap_self by blast
  with no have "R n \<noteq> R m" by auto
  with par no show ?thesis by simp
qed

lemma wf_replace:
  "wf_node t \<Longrightarrow> node_at t p = Some n \<Longrightarrow> wf_node n' \<Longrightarrow> R n' = R n \<Longrightarrow>
   wf_node (replace_at p n' t)"
proof (induction p arbitrary: t)
  case Nil
  then show ?case by simp
next
  case (Cons i p)
  obtain r a cs where t: "t = Node r a cs" by (cases t)
  with Cons.prems have i: "i < length cs" and n: "node_at (cs ! i) p = Some n"
    by (auto split: if_splits)
  let ?c = "replace_at p n' (cs ! i)"
  have ci: "cs ! i \<in> set cs" using i by simp
  from Cons.prems(1) t i have wfc: "\<not> a" "\<forall>c \<in> set cs. \<not> IsEmpty (R c) \<and> inside (R c) r \<and> wf_node c"
    "\<forall>k < length cs. \<forall>j < length cs. k \<noteq> j \<longrightarrow> \<not> overlap (R (cs ! k)) (R (cs ! j))"
    by auto
  have wc: "wf_node ?c" using Cons.IH [OF _ n Cons.prems(3,4)] wfc(2) ci by blast
  have rc: "R ?c = R (cs ! i)" using replace_at_R [OF n Cons.prems(4)] .
  have R_upd: "R (cs[i := ?c] ! k) = R (cs ! k)" if "k < length cs" for k
    using that rc by (cases "k = i") auto
  have 1: "\<forall>c \<in> set (cs[i := ?c]). \<not> IsEmpty (R c) \<and> inside (R c) r \<and> wf_node c"
  proof
    fix c assume "c \<in> set (cs[i := ?c])"
    then have "c = ?c \<or> c \<in> set cs" using set_update_subset_insert by fastforce
    then show "\<not> IsEmpty (R c) \<and> inside (R c) r \<and> wf_node c"
      using wc rc wfc(2) ci by auto
  qed
  have 2: "\<forall>k < length cs. \<forall>j < length cs. k \<noteq> j \<longrightarrow> \<not> overlap (R (cs[i := ?c] ! k)) (R (cs[i := ?c] ! j))"
    using wfc(3) R_upd by simp
  from t i wfc(1) 1 2 show ?case by simp
qed

section \<open>The indices\<close>

lemma indices_ok_hold:
  "indices_ok s = indices_hold s (free_leaves (m_Root s)) (allocated_leaves (m_Root s))"
  by (simp add: indices_ok_def indices_hold_def)

lemma RegisterNode_fields [simp]:
  "m_Root (RegisterNode pN N s) = m_Root s"
  "m_Width (RegisterNode pN N s) = m_Width s"
  "m_Height (RegisterNode pN N s) = m_Height s"
  by (simp_all add: RegisterNode_def)

lemma UnregisterNode_fields [simp]:
  "m_Root (UnregisterNode N s) = m_Root s"
  "m_Width (UnregisterNode N s) = m_Width s"
  "m_Height (UnregisterNode N s) = m_Height s"
  by (simp_all add: UnregisterNode_def)

lemma indices_hold_root [simp]: "indices_hold (s\<lparr>m_Root := t\<rparr>) F A = indices_hold s F A"
  by (simp add: indices_hold_def)

lemma hold_Register_free:
  assumes "indices_hold s F A" "\<not> IsAllocated N" "R N \<notin> fst ` F"
  shows "indices_hold (RegisterNode pN N s) (insert (R N, pN) F) A"
  using assms
  by (simp add: indices_hold_def RegisterNode_def
      set_map_emplace [OF key_order_WidthThenHeightCmp]
      set_map_emplace [OF key_order_HeightThenWidthCmp]
      sorted_map_emplace [OF key_order_WidthThenHeightCmp]
      sorted_map_emplace [OF key_order_HeightThenWidthCmp])

lemma graph_hash_emplace:
  "k \<notin> fst ` Map.graph m \<Longrightarrow> Map.graph (hash_emplace k v m) = insert (k, v) (Map.graph m)"
proof -
  assume "k \<notin> fst ` Map.graph m"
  then have "m k = None" by (cases "m k") (force simp: Map.graph_def)+
  then show ?thesis
    by (auto simp: hash_emplace_def Map.graph_def split: if_splits)
qed

lemma hold_Register_allocated:
  assumes "indices_hold s F A" "IsAllocated N" "R N \<notin> fst ` A"
  shows "indices_hold (RegisterNode pN N s) F (insert (R N, pN) A)"
  using assms by (auto simp: indices_hold_def RegisterNode_def graph_hash_emplace)

lemma hold_Unregister_free:
  assumes "indices_hold s F A" "\<not> IsAllocated N"
  shows "indices_hold (UnregisterNode N s) {e \<in> F. fst e \<noteq> R N} A"
  using assms
  by (simp add: indices_hold_def UnregisterNode_def
      set_map_erase [OF key_order_WidthThenHeightCmp]
      set_map_erase [OF key_order_HeightThenWidthCmp]
      sorted_map_erase)

lemma hold_Unregister_allocated:
  assumes "indices_hold s F A" "IsAllocated N"
  shows "indices_hold (UnregisterNode N s) F {e \<in> A. fst e \<noteq> R N}"
  using assms by (auto simp: indices_hold_def UnregisterNode_def graph_fun_upd_None)

lemma graph_eq_imp_eq:
  assumes "Map.graph m = Map.graph m'"
  shows "m = m'"
proof
  fix k
  show "m k = m' k"
  proof (cases "m k")
    case None
    show ?thesis
    proof (cases "m' k")
      case None
      with \<open>m k = None\<close> show ?thesis by simp
    next
      case (Some v)
      then have "(k, v) \<in> Map.graph m'" by (rule in_graphI)
      then have "(k, v) \<in> Map.graph m" unfolding assms .
      then have "m k = Some v" by (rule in_graphD)
      with None show ?thesis by simp
    qed
  next
    case (Some v)
    then have "(k, v) \<in> Map.graph m" by (rule in_graphI)
    then have "(k, v) \<in> Map.graph m'" unfolding assms .
    then have "m' k = Some v" by (rule in_graphD)
    with Some show ?thesis by simp
  qed
qed

lemma hold_unique:
  assumes "indices_hold s F A" "indices_hold s' F A"
  shows "m_FreeRegionsByWidth s' = m_FreeRegionsByWidth s \<and>
    m_FreeRegionsByHeight s' = m_FreeRegionsByHeight s \<and>
    m_AllocatedRegions s' = m_AllocatedRegions s"
proof -
  have sw: "sorted_wrt WidthThenHeightCmp (map fst (m_FreeRegionsByWidth s'))"
    "sorted_wrt WidthThenHeightCmp (map fst (m_FreeRegionsByWidth s))"
    "set (m_FreeRegionsByWidth s') = set (m_FreeRegionsByWidth s)"
    using assms unfolding indices_hold_def by metis+
  have sh: "sorted_wrt HeightThenWidthCmp (map fst (m_FreeRegionsByHeight s'))"
    "sorted_wrt HeightThenWidthCmp (map fst (m_FreeRegionsByHeight s))"
    "set (m_FreeRegionsByHeight s') = set (m_FreeRegionsByHeight s)"
    using assms unfolding indices_hold_def by metis+
  have g: "Map.graph (m_AllocatedRegions s') = Map.graph (m_AllocatedRegions s)"
    using assms unfolding indices_hold_def by metis
  have w: "m_FreeRegionsByWidth s' = m_FreeRegionsByWidth s"
    by (rule sorted_keys_unique [OF key_order_WidthThenHeightCmp sw])
  have h: "m_FreeRegionsByHeight s' = m_FreeRegionsByHeight s"
    by (rule sorted_keys_unique [OF key_order_HeightThenWidthCmp sh])
  have a: "m_AllocatedRegions s' = m_AllocatedRegions s"
    by (rule graph_eq_imp_eq [OF g])
  from w h a show ?thesis by (intro conjI)
qed

subsection \<open>Processing the children\<close>

lemma ProcessChildren_fields [simp]:
  "m_Root (ProcessChildren RegisterNode pN N s) = m_Root s"
  "m_Width (ProcessChildren RegisterNode pN N s) = m_Width s"
  "m_Height (ProcessChildren RegisterNode pN N s) = m_Height s"
  "m_Root (ProcessChildren (\<lambda>pC. UnregisterNode) pN N s) = m_Root s"
  "m_Width (ProcessChildren (\<lambda>pC. UnregisterNode) pN N s) = m_Width s"
  "m_Height (ProcessChildren (\<lambda>pC. UnregisterNode) pN N s) = m_Height s"
proof -
  have "m_Root (fold (\<lambda>i. RegisterNode (pN @ [i]) (cs ! i)) xs s) = m_Root s \<and>
        m_Width (fold (\<lambda>i. RegisterNode (pN @ [i]) (cs ! i)) xs s) = m_Width s \<and>
        m_Height (fold (\<lambda>i. RegisterNode (pN @ [i]) (cs ! i)) xs s) = m_Height s" for cs xs s
    by (induction xs arbitrary: s) auto
  moreover have "m_Root (fold (\<lambda>i. UnregisterNode (cs ! i)) xs s) = m_Root s \<and>
        m_Width (fold (\<lambda>i. UnregisterNode (cs ! i)) xs s) = m_Width s \<and>
        m_Height (fold (\<lambda>i. UnregisterNode (cs ! i)) xs s) = m_Height s" for cs xs s
    by (induction xs arbitrary: s) auto
  ultimately show
    "m_Root (ProcessChildren RegisterNode pN N s) = m_Root s"
    "m_Width (ProcessChildren RegisterNode pN N s) = m_Width s"
    "m_Height (ProcessChildren RegisterNode pN N s) = m_Height s"
    "m_Root (ProcessChildren (\<lambda>pC. UnregisterNode) pN N s) = m_Root s"
    "m_Width (ProcessChildren (\<lambda>pC. UnregisterNode) pN N s) = m_Width s"
    "m_Height (ProcessChildren (\<lambda>pC. UnregisterNode) pN N s) = m_Height s"
    by (simp_all add: ProcessChildren_def)
qed

lemma child_entries_0 [simp]: "child_entries a pN cs 0 = {}"
  by (simp add: child_entries_def)

lemma child_entries_Suc:
  "child_entries a pN cs (Suc k) =
     (if IsAllocated (cs ! k) = a then insert (R (cs ! k), pN @ [k]) (child_entries a pN cs k)
      else child_entries a pN cs k)"
  by (auto simp: child_entries_def less_Suc_eq)

lemma fst_child_entries:
  "r \<in> fst ` child_entries a pN cs k \<longleftrightarrow> (\<exists>i < k. r = R (cs ! i) \<and> IsAllocated (cs ! i) = a)"
  by (force simp: child_entries_def)

lemma hold_register_children:
  assumes "indices_hold s F A"
    and "\<forall>i < length cs. \<forall>j < length cs. i \<noteq> j \<longrightarrow> R (cs ! i) \<noteq> R (cs ! j)"
    and "\<forall>i < length cs. R (cs ! i) \<notin> fst ` F \<and> R (cs ! i) \<notin> fst ` A"
  shows "k \<le> length cs \<Longrightarrow>
     indices_hold (fold (\<lambda>i. RegisterNode (pN @ [i]) (cs ! i)) [0..<k] s)
       (F \<union> child_entries False pN cs k) (A \<union> child_entries True pN cs k)"
proof (induction k)
  case 0
  with assms(1) show ?case by simp
next
  case (Suc k)
  let ?s = "fold (\<lambda>i. RegisterNode (pN @ [i]) (cs ! i)) [0..<k] s"
  have IH: "indices_hold ?s (F \<union> child_entries False pN cs k) (A \<union> child_entries True pN cs k)"
    using Suc by simp
  have k: "k < length cs" using Suc.prems by simp
  have fresh: "R (cs ! k) \<notin> fst ` (F \<union> child_entries a pN cs k)"
    "R (cs ! k) \<notin> fst ` (A \<union> child_entries a pN cs k)" for a
    using assms(2,3) k by (auto simp: image_Un fst_child_entries)
  show ?case
  proof (cases "IsAllocated (cs ! k)")
    case True
    with hold_Register_allocated [OF IH True fresh(2) [of True], of "pN @ [k]"]
    show ?thesis by (simp add: child_entries_Suc)
  next
    case False
    with hold_Register_free [OF IH False fresh(1) [of False], of "pN @ [k]"]
    show ?thesis by (simp add: child_entries_Suc)
  qed
qed

lemma hold_ProcessChildren_Register:
  assumes "indices_hold s F A"
    and "\<forall>i < length (Children N). \<forall>j < length (Children N). i \<noteq> j \<longrightarrow>
           R (Children N ! i) \<noteq> R (Children N ! j)"
    and "\<forall>i < length (Children N). R (Children N ! i) \<notin> fst ` F \<and> R (Children N ! i) \<notin> fst ` A"
  shows "indices_hold (ProcessChildren RegisterNode pN N s)
       (F \<union> child_entries False pN (Children N) (length (Children N)))
       (A \<union> child_entries True pN (Children N) (length (Children N)))"
  unfolding ProcessChildren_def
  using hold_register_children [OF assms, of "length (Children N)" pN] by simp

lemma hold_unregister_children:
  assumes "indices_hold s F A" and "\<forall>c \<in> set cs. \<not> IsAllocated c"
  shows "k \<le> length cs \<Longrightarrow>
     indices_hold (fold (\<lambda>i. UnregisterNode (cs ! i)) [0..<k] s)
       {e \<in> F. \<forall>i < k. fst e \<noteq> R (cs ! i)} A"
proof (induction k)
  case 0
  with assms(1) show ?case by simp
next
  case (Suc k)
  let ?s = "fold (\<lambda>i. UnregisterNode (cs ! i)) [0..<k] s"
  have IH: "indices_hold ?s {e \<in> F. \<forall>i < k. fst e \<noteq> R (cs ! i)} A"
    using Suc by simp
  have k: "\<not> IsAllocated (cs ! k)" using Suc.prems assms(2) by simp
  have eq: "{e \<in> {e \<in> F. \<forall>i < k. fst e \<noteq> R (cs ! i)}. fst e \<noteq> R (cs ! k)} =
            {e \<in> F. \<forall>i < Suc k. fst e \<noteq> R (cs ! i)}"
    by (auto simp: less_Suc_eq)
  have "indices_hold (UnregisterNode (cs ! k) ?s) {e \<in> F. \<forall>i < Suc k. fst e \<noteq> R (cs ! i)} A"
    using hold_Unregister_free [OF IH k] by (simp only: eq)
  then show ?case by simp
qed

lemma hold_ProcessChildren_Unregister:
  assumes "indices_hold s F A" and "\<forall>c \<in> set (Children N). \<not> IsAllocated c"
  shows "indices_hold (ProcessChildren (\<lambda>pC. UnregisterNode) pN N s)
       {e \<in> F. fst e \<notin> R ` set (Children N)} A"
proof -
  have "{e \<in> F. \<forall>i < length (Children N). fst e \<noteq> R (Children N ! i)} =
        {e \<in> F. fst e \<notin> R ` set (Children N)}"
  proof -
    have "(\<forall>i < length (Children N). r \<noteq> R (Children N ! i)) \<longleftrightarrow> r \<notin> R ` set (Children N)" for r
      by (force simp: in_set_conv_nth)
    then show ?thesis by simp
  qed
  then show ?thesis
    unfolding ProcessChildren_def
    using hold_unregister_children [OF assms, of "length (Children N)"] by simp
qed

section \<open>Leaves of a changed tree\<close>

lemma leaf_replace:
  assumes "node_at t p = Some n"
  shows "node_at (replace_at p n' t) q = Some (Node r a []) \<longleftrightarrow>
     (\<exists>q'. q = p @ q' \<and> node_at n' q' = Some (Node r a [])) \<or>
     (\<not> prefix p q \<and> node_at t q = Some (Node r a []))"
proof (cases p q rule: prefix_cases)
  case 1
  then obtain q' where q: "q = p @ q'" by (auto simp: prefix_def)
  then show ?thesis using node_at_replace_below [OF assms] by auto
next
  case 2
  then obtain p' where p: "p = q @ p'" "p' \<noteq> []" by (auto simp: strict_prefix_def prefix_def)
  with assms obtain m where m: "node_at t q = Some m" "node_at m p' = Some n"
    by (auto simp: node_at_append split: option.splits)
  with p(2) have cm: "Children m \<noteq> []" by (cases m; cases p') (auto split: if_splits)
  then have "Children (replace_at p' n' m) \<noteq> []"
    using replace_at_Children_empty [OF p(2)] by simp
  moreover have "node_at (replace_at p n' t) q = Some (replace_at p' n' m)"
    using node_at_replace_above [of q p' n' t] p(1) m(1) by simp
  moreover have "\<not> prefix p q" using 2 by (auto simp: strict_prefix_def)
  moreover have "\<nexists>q'. q = p @ q'" using p by auto
  ultimately show ?thesis using m(1) cm by auto
next
  case 3
  then have "\<not> prefix p q" "\<nexists>q'. q = p @ q'" by (auto simp: parallel_def prefix_def)
  then show ?thesis using node_at_replace_parallel [OF 3] by auto
qed

lemma free_leaves_replace:
  assumes "node_at t p = Some n"
  shows "free_leaves (replace_at p n' t) =
     {(r, p @ q') | r q'. (r, q') \<in> free_leaves n'} \<union> {(r, q). (r, q) \<in> free_leaves t \<and> \<not> prefix p q}"
  by (auto simp: free_leaves_def leaf_replace [OF assms])

lemma allocated_leaves_replace:
  assumes "node_at t p = Some n"
  shows "allocated_leaves (replace_at p n' t) =
     {(r, p @ q') | r q'. (r, q') \<in> allocated_leaves n'} \<union>
     {(r, q). (r, q) \<in> allocated_leaves t \<and> \<not> prefix p q}"
  by (auto simp: allocated_leaves_def leaf_replace [OF assms])

lemma leaves_of_leaf [simp]:
  "free_leaves (Node r a []) = (if a then {} else {(r, [])})"
  "allocated_leaves (Node r a []) = (if a then {(r, [])} else {})"
  by (auto simp: free_leaves_def allocated_leaves_def node_at_leaf)

lemma leaves_of_parent:
  assumes "\<forall>c \<in> set cs. Children c = []" "cs \<noteq> []"
  shows "{(r, p @ q') | r q'. (r, q') \<in> free_leaves (Node r0 a0 cs)} = child_entries False p cs (length cs)"
    and "{(r, p @ q') | r q'. (r, q') \<in> allocated_leaves (Node r0 a0 cs)} = child_entries True p cs (length cs)"
proof -
  have *: "node_at (Node r0 a0 cs) q = Some (Node r a []) \<longleftrightarrow>
        (\<exists>i < length cs. q = [i] \<and> cs ! i = Node r a [])" for q r a
  proof (cases q)
    case Nil
    with assms(2) show ?thesis by auto
  next
    case (Cons i q')
    show ?thesis
    proof (cases "i < length cs")
      case True
      then have "Children (cs ! i) = []" using assms(1) by simp
      then obtain ri ai where "cs ! i = Node ri ai []" by (cases "cs ! i") auto
      with True Cons show ?thesis by (auto simp: node_at_leaf)
    next
      case False
      with Cons show ?thesis by auto
    qed
  qed
  have **: "cs ! i = Node r a [] \<longleftrightarrow> r = R (cs ! i) \<and> a = IsAllocated (cs ! i)" if "i < length cs" for i r a
    using assms(1) that by (cases "cs ! i") (auto dest!: nth_mem)
  show "{(r, p @ q') | r q'. (r, q') \<in> free_leaves (Node r0 a0 cs)} = child_entries False p cs (length cs)"
    unfolding free_leaves_def child_entries_def using * ** by auto
  show "{(r, p @ q') | r q'. (r, q') \<in> allocated_leaves (Node r0 a0 cs)} = child_entries True p cs (length cs)"
    unfolding allocated_leaves_def child_entries_def using * ** by auto
qed

section \<open>The regions of a split\<close>

lemma apart_iff_sorted_wrt:
  "(\<forall>i < length l. \<forall>j < length l. i \<noteq> j \<longrightarrow> \<not> overlap (l ! i) (l ! j)) \<longleftrightarrow>
   sorted_wrt (\<lambda>a b. \<not> overlap a b) l"
proof
  assume a: "\<forall>i < length l. \<forall>j < length l. i \<noteq> j \<longrightarrow> \<not> overlap (l ! i) (l ! j)"
  then show "sorted_wrt (\<lambda>a b. \<not> overlap a b) l"
    by (simp add: sorted_wrt_iff_nth_less)
next
  assume s: "sorted_wrt (\<lambda>a b. \<not> overlap a b) l"
  show "\<forall>i < length l. \<forall>j < length l. i \<noteq> j \<longrightarrow> \<not> overlap (l ! i) (l ! j)"
  proof (intro allI impI)
    fix i j assume ij: "i < length l" "j < length l" "i \<noteq> j"
    then consider "i < j" | "j < i" by linarith
    then show "\<not> overlap (l ! i) (l ! j)"
    proof cases
      case 1
      with s ij show ?thesis by (simp add: sorted_wrt_iff_nth_less)
    next
      case 2
      with s ij have "\<not> overlap (l ! j) (l ! i)" by (simp add: sorted_wrt_iff_nth_less)
      then show ?thesis using overlap_sym by blast
    qed
  qed
qed

lemma unat_add_inside:
  fixes a b c :: Uint32
  assumes "unat a + unat c < 2 ^ 32" "b \<le> c"
  shows "unat (a + b) = unat a + unat b"
proof -
  have "unat b \<le> unat c" using assms(2) by (simp add: word_le_nat_alt)
  with assms(1) have "unat a + unat b < 2 ^ LENGTH(32)" by simp
  then show ?thesis by (simp only: unat_add_lem [THEN iffD1])
qed

lemma split_geometry:
  assumes nx: "unat (rx r) + unat (width r) < 2 ^ 32"
    and ny: "unat (ry r) + unat (height r) < 2 ^ 32"
    and w: "w \<le> width r" "0 < w" and h: "h \<le> height r" "0 < h"
  shows "inside (Region (rx r) (ry r) w h) r"
    and "\<not> IsEmpty (Region (rx r) (ry r) w h)"
    and "w < width r \<Longrightarrow>
      inside (Region (rx r + w) (ry r) (width r - w) (height r)) r \<and>
      \<not> IsEmpty (Region (rx r + w) (ry r) (width r - w) (height r)) \<and>
      \<not> overlap (Region (rx r) (ry r) w h) (Region (rx r + w) (ry r) (width r - w) (height r)) \<and>
      inside (Region (rx r + w) (ry r) (width r - w) h) r \<and>
      \<not> IsEmpty (Region (rx r + w) (ry r) (width r - w) h) \<and>
      \<not> overlap (Region (rx r) (ry r) w h) (Region (rx r + w) (ry r) (width r - w) h)"
    and "h < height r \<Longrightarrow>
      inside (Region (rx r) (ry r + h) (width r) (height r - h)) r \<and>
      \<not> IsEmpty (Region (rx r) (ry r + h) (width r) (height r - h)) \<and>
      \<not> overlap (Region (rx r) (ry r) w h) (Region (rx r) (ry r + h) (width r) (height r - h)) \<and>
      inside (Region (rx r) (ry r + h) w (height r - h)) r \<and>
      \<not> IsEmpty (Region (rx r) (ry r + h) w (height r - h)) \<and>
      \<not> overlap (Region (rx r) (ry r) w h) (Region (rx r) (ry r + h) w (height r - h))"
    and "w < width r \<Longrightarrow> h < height r \<Longrightarrow>
      \<not> overlap (Region (rx r + w) (ry r) (width r - w) (height r)) (Region (rx r) (ry r + h) w (height r - h)) \<and>
      \<not> overlap (Region (rx r) (ry r + h) (width r) (height r - h)) (Region (rx r + w) (ry r) (width r - w) h)"
proof -
  have xw: "unat (rx r + w) = unat (rx r) + unat w" by (rule unat_add_inside [OF nx w(1)])
  have yh: "unat (ry r + h) = unat (ry r) + unat h" by (rule unat_add_inside [OF ny h(1)])
  have ww: "unat (width r - w) = unat (width r) - unat w" by (rule unat_sub [OF w(1)])
  have hh: "unat (height r - h) = unat (height r) - unat h" by (rule unat_sub [OF h(1)])
  have le: "unat w \<le> unat (width r)" "unat h \<le> unat (height r)"
    using w(1) h(1) by (simp_all add: word_le_nat_alt)
  have pos: "0 < unat w" "0 < unat h"
    using w(2) h(2) by (simp_all add: word_less_nat_alt)
  show "inside (Region (rx r) (ry r) w h) r"
    using le by (simp add: inside_def)
  show "\<not> IsEmpty (Region (rx r) (ry r) w h)"
    using pos by (simp add: IsEmpty_unat)
  show "w < width r \<Longrightarrow>
      inside (Region (rx r + w) (ry r) (width r - w) (height r)) r \<and>
      \<not> IsEmpty (Region (rx r + w) (ry r) (width r - w) (height r)) \<and>
      \<not> overlap (Region (rx r) (ry r) w h) (Region (rx r + w) (ry r) (width r - w) (height r)) \<and>
      inside (Region (rx r + w) (ry r) (width r - w) h) r \<and>
      \<not> IsEmpty (Region (rx r + w) (ry r) (width r - w) h) \<and>
      \<not> overlap (Region (rx r) (ry r) w h) (Region (rx r + w) (ry r) (width r - w) h)"
    using le pos by (simp add: inside_def IsEmpty_unat overlap_def xw ww word_less_nat_alt)
  show "h < height r \<Longrightarrow>
      inside (Region (rx r) (ry r + h) (width r) (height r - h)) r \<and>
      \<not> IsEmpty (Region (rx r) (ry r + h) (width r) (height r - h)) \<and>
      \<not> overlap (Region (rx r) (ry r) w h) (Region (rx r) (ry r + h) (width r) (height r - h)) \<and>
      inside (Region (rx r) (ry r + h) w (height r - h)) r \<and>
      \<not> IsEmpty (Region (rx r) (ry r + h) w (height r - h)) \<and>
      \<not> overlap (Region (rx r) (ry r) w h) (Region (rx r) (ry r + h) w (height r - h))"
    using le pos by (simp add: inside_def IsEmpty_unat overlap_def yh hh word_less_nat_alt)
  show "w < width r \<Longrightarrow> h < height r \<Longrightarrow>
      \<not> overlap (Region (rx r + w) (ry r) (width r - w) (height r)) (Region (rx r) (ry r + h) w (height r - h)) \<and>
      \<not> overlap (Region (rx r) (ry r + h) (width r) (height r - h)) (Region (rx r + w) (ry r) (width r - w) h)"
    using le pos by (simp add: overlap_def xw yh ww hh word_less_nat_alt)
qed

text \<open>What a split leaves behind: the node with the placed rectangle allocated.\<close>

lemma SplitSource_cases:
  assumes nx: "unat (rx r) + unat (width r) < 2 ^ 32"
    and ny: "unat (ry r) + unat (height r) < 2 ^ 32"
    and fit: "fits w h r" and pos: "0 < w" "0 < h"
  obtains (exact) "width r = w" "height r = h" "SplitSource w h (Node r a []) = Node r a []"
  | (split) rs where
      "SplitSource w h (Node r a []) =
         Node r a (Node (Region (rx r) (ry r) w h) False [] # map (\<lambda>x. Node x False []) rs)"
      "rs \<noteq> []"
      "\<forall>x \<in> set (Region (rx r) (ry r) w h # rs). \<not> IsEmpty x \<and> inside x r"
      "sorted_wrt (\<lambda>a b. \<not> overlap a b) (Region (rx r) (ry r) w h # rs)"
proof -
  have le: "w \<le> width r" "h \<le> height r" using fit by (simp_all add: fits_def)
  note g = split_geometry [OF nx ny le(1) pos(1) le(2) pos(2)]
  consider (a) "w < width r" "h < height r" "height r < width r"
    | (b) "w < width r" "h < height r" "\<not> height r < width r"
    | (c) "w < width r" "\<not> h < height r"
    | (d) "\<not> w < width r" "h < height r"
    | (e) "\<not> w < width r" "\<not> h < height r"
    by blast
  then show thesis
  proof cases
    case a
    show thesis
      by (rule split [of "[Region (rx r + w) (ry r) (width r - w) (height r),
            Region (rx r) (ry r + h) w (height r - h)]"])
        (use a g in \<open>simp_all add: SplitSource_def Split_def\<close>)
  next
    case b
    show thesis
      by (rule split [of "[Region (rx r) (ry r + h) (width r) (height r - h),
            Region (rx r + w) (ry r) (width r - w) h]"])
        (use b g in \<open>simp_all add: SplitSource_def Split_def\<close>)
  next
    case c
    show thesis
      by (rule split [of "[Region (rx r + w) (ry r) (width r - w) (height r)]"])
        (use c g in \<open>simp_all add: SplitSource_def Split_def\<close>)
  next
    case d
    show thesis
      by (rule split [of "[Region (rx r) (ry r + h) (width r) (height r - h)]"])
        (use d g in \<open>simp_all add: SplitSource_def Split_def\<close>)
  next
    case e
    with le have "width r = w" "height r = h" by simp_all
    then show thesis
      by (rule exact) (use e in \<open>simp add: SplitSource_def\<close>)
  qed
qed

section \<open>Merged trees\<close>

lemma ancestor_after_replace:
  assumes "node_at t (q @ i # p') = Some n"
  obtains m where "node_at t q = Some m" "i < length (Children m)"
    "node_at (Children m ! i) p' = Some n"
    "node_at (replace_at (q @ i # p') n' t) q =
       Some (Node (R m) (IsAllocated m) ((Children m)[i := replace_at p' n' (Children m ! i)]))"
proof -
  from assms obtain m where m: "node_at t q = Some m" "node_at m (i # p') = Some n"
    by (auto simp: node_at_append split: option.splits)
  obtain r a cs where mm: "m = Node r a cs" by (cases m)
  with m(2) have i: "i < length cs" "node_at (cs ! i) p' = Some n"
    by (auto split: if_splits)
  have "node_at (replace_at (q @ i # p') n' t) q = Some (replace_at (i # p') n' m)"
    using node_at_replace_above [of q "i # p'" n' t] m(1) by simp
  with mm i m(1) show thesis by (intro that [of m]) auto
qed

lemma node_at_Children: "node_at c p = Some n \<Longrightarrow> p \<noteq> [] \<Longrightarrow> Children c \<noteq> []"
  by (cases c; cases p) (auto split: if_splits)

lemma merged_but_replace:
  assumes old: "merged_but N0 t" and N0: "N0 = None \<or> N0 = Some p"
    and p: "node_at t p = Some n"
    and sub: "\<And>q' m. node_at n' q' = Some m \<Longrightarrow> HasChildren m \<Longrightarrow> CanMergeChildren m \<Longrightarrow>
                N = Some (p @ q')"
    and par: "IsAllocated n' \<or> Children n' \<noteq> [] \<or> N = Parent p"
  shows "merged_but N (replace_at p n' t)"
  unfolding merged_but_def
proof (intro allI impI)
  fix q m
  assume m: "node_at (replace_at p n' t) q = Some m" "HasChildren m" "CanMergeChildren m"
  show "N = Some q"
  proof (cases p q rule: prefix_cases)
    case 1
    then obtain q' where q: "q = p @ q'" by (auto simp: prefix_def)
    with m(1) have "node_at n' q' = Some m" using node_at_replace_below [OF p] by simp
    from sub [OF this m(2,3)] q show ?thesis by simp
  next
    case 2
    then obtain z where "p = q @ z" "z \<noteq> []" by (auto simp: strict_prefix_def prefix_def)
    then obtain i p' where pq: "p = q @ i # p'" by (cases z) auto
    from p obtain k where k: "node_at t q = Some k" "i < length (Children k)"
      "node_at (Children k ! i) p' = Some n"
      "node_at (replace_at (q @ i # p') n' t) q =
         Some (Node (R k) (IsAllocated k) ((Children k)[i := replace_at p' n' (Children k ! i)]))"
      unfolding pq by (rule ancestor_after_replace)
    let ?c = "replace_at p' n' (Children k ! i)"
    from m(1) k(4) pq have mm: "m = Node (R k) (IsAllocated k) ((Children k)[i := ?c])" by simp
    have "?c \<in> set (Children m)" using mm k(2) by (simp add: set_update_memI)
    with m(3) have c: "\<not> IsAllocated ?c" "Children ?c = []"
      by (simp_all add: CanMergeChildren_iff)
    have p': "p' = []"
    proof (rule ccontr)
      assume ne: "p' \<noteq> []"
      from node_at_Children [OF k(3) ne] replace_at_Children_empty [OF ne, of n' "Children k ! i"] c(2)
      show False by simp
    qed
    with c par have "N = Parent p" by simp
    with pq p' show ?thesis by (simp add: Parent_def)
  next
    case 3
    then have "node_at t q = Some m" using m(1) node_at_replace_parallel by simp
    with old m(2,3) have "N0 = Some q" by (simp add: merged_but_def)
    with N0 3 show ?thesis by auto
  qed
qed

section \<open>The constructor\<close>

lemma DynamicAtlasManager_fields:
  "m_Width (DynamicAtlasManager W H) = W"
  "m_Height (DynamicAtlasManager W H) = H"
  "m_Root (DynamicAtlasManager W H) = Node (Region 0 0 W H) False []"
  "m_FreeRegionsByWidth (DynamicAtlasManager W H) = [(Region 0 0 W H, [])]"
  "m_FreeRegionsByHeight (DynamicAtlasManager W H) = [(Region 0 0 W H, [])]"
  "m_AllocatedRegions (DynamicAtlasManager W H) = Map.empty"
  by (simp_all add: DynamicAtlasManager_def RegisterNode_def)

lemma consistent_new: "consistent (DynamicAtlasManager W H)"
  by (simp add: consistent_def consistent_but_def tree_ok_def indices_ok_def merged_but_def
      DynamicAtlasManager_fields node_at_leaf HasChildren_def)

section \<open>Entries of the leaves\<close>

lemma free_leaf_iff: "(r, p) \<in> free_leaves t \<longleftrightarrow> node_at t p = Some (Node r False [])"
  by (simp add: free_leaves_def)

lemma allocated_leaf_iff: "(r, p) \<in> allocated_leaves t \<longleftrightarrow> node_at t p = Some (Node r True [])"
  by (simp add: allocated_leaves_def)

lemma leaf_entry_unique:
  assumes "wf_node t" "node_at t p = Some (Node r a [])" "node_at t q = Some (Node r b [])"
  shows "q = p \<and> b = a"
proof -
  have "q = p"
  proof (rule ccontr)
    assume "q \<noteq> p"
    then have "p \<noteq> q" by simp
    have "p \<parallel> q \<and> \<not> overlap (R (Node r a [])) (R (Node r b [])) \<and> R (Node r a []) \<noteq> R (Node r b [])"
      by (rule leaves_apart [OF assms(1,2) _ assms(3) _ \<open>p \<noteq> q\<close>]) simp_all
    then show False by simp
  qed
  with assms(2,3) show ?thesis by simp
qed

lemma leaf_key_free:
  assumes "wf_node t" "node_at t p = Some (Node r a [])"
  shows "{e \<in> free_leaves t. fst e \<noteq> r} = free_leaves t - {(r, p)}"
proof (intro set_eqI iffI)
  fix e assume "e \<in> {e \<in> free_leaves t. fst e \<noteq> r}"
  then show "e \<in> free_leaves t - {(r, p)}" by (cases e) simp
next
  fix e assume e: "e \<in> free_leaves t - {(r, p)}"
  obtain x q where xq: "e = (x, q)" by (cases e)
  have "x \<noteq> r"
  proof
    assume "x = r"
    with e xq have "node_at t q = Some (Node r False [])" by (simp add: free_leaf_iff)
    from leaf_entry_unique [OF assms this] e xq \<open>x = r\<close> show False by simp
  qed
  with e xq show "e \<in> {e \<in> free_leaves t. fst e \<noteq> r}" by simp
qed

lemma leaf_key_allocated:
  assumes "wf_node t" "node_at t p = Some (Node r a [])"
  shows "{e \<in> allocated_leaves t. fst e \<noteq> r} = allocated_leaves t - {(r, p)}"
proof (intro set_eqI iffI)
  fix e assume "e \<in> {e \<in> allocated_leaves t. fst e \<noteq> r}"
  then show "e \<in> allocated_leaves t - {(r, p)}" by (cases e) simp
next
  fix e assume e: "e \<in> allocated_leaves t - {(r, p)}"
  obtain x q where xq: "e = (x, q)" by (cases e)
  have "x \<noteq> r"
  proof
    assume "x = r"
    with e xq have "node_at t q = Some (Node r True [])" by (simp add: allocated_leaf_iff)
    from leaf_entry_unique [OF assms this] e xq \<open>x = r\<close> show False by simp
  qed
  with e xq show "e \<in> {e \<in> allocated_leaves t. fst e \<noteq> r}" by simp
qed

lemma leaf_other_regions:
  assumes "wf_node t" "node_at t p = Some (Node r a [])"
    and "(x, q) \<in> free_leaves t \<union> allocated_leaves t" and "q \<noteq> p"
  shows "\<not> overlap r x"
proof -
  from assms(3) obtain b where b: "node_at t q = Some (Node x b [])"
    by (auto simp: free_leaves_def allocated_leaves_def)
  from assms(4) have "p \<noteq> q" by simp
  have "p \<parallel> q \<and> \<not> overlap (R (Node r a [])) (R (Node x b [])) \<and> R (Node r a []) \<noteq> R (Node x b [])"
    by (rule leaves_apart [OF assms(1,2) _ b _ \<open>p \<noteq> q\<close>]) simp_all
  then show ?thesis by simp
qed

lemma leaf_prefix_iff:
  assumes "node_at t p = Some (Node r a [])" "node_at t q = Some m"
  shows "prefix p q \<longleftrightarrow> q = p"
proof
  assume "prefix p q"
  from leaf_not_above [OF assms(1) _ this assms(2)] show "q = p" by simp
next
  assume "q = p"
  then show "prefix p q" by simp
qed

lemma free_leaves_not_below:
  assumes "node_at t p = Some (Node r a [])"
  shows "{(x, q). (x, q) \<in> free_leaves t \<and> \<not> prefix p q} = free_leaves t - {(r, p)}"
proof (intro set_eqI iffI)
  fix e assume e: "e \<in> {(x, q). (x, q) \<in> free_leaves t \<and> \<not> prefix p q}"
  then obtain x q where xq: "e = (x, q)" "(x, q) \<in> free_leaves t" "\<not> prefix p q" by auto
  then have "q \<noteq> p" by auto
  with xq show "e \<in> free_leaves t - {(r, p)}" by simp
next
  fix e assume e: "e \<in> free_leaves t - {(r, p)}"
  obtain x q where xq: "e = (x, q)" by (cases e)
  with e have n: "node_at t q = Some (Node x False [])" by (simp add: free_leaf_iff)
  have "q \<noteq> p"
  proof
    assume "q = p"
    with n assms e xq show False by simp
  qed
  then have "\<not> prefix p q" using leaf_prefix_iff [OF assms n] by simp
  with e xq show "e \<in> {(x, q). (x, q) \<in> free_leaves t \<and> \<not> prefix p q}" by simp
qed

lemma allocated_leaves_not_below:
  assumes "node_at t p = Some (Node r a [])"
  shows "{(x, q). (x, q) \<in> allocated_leaves t \<and> \<not> prefix p q} = allocated_leaves t - {(r, p)}"
proof (intro set_eqI iffI)
  fix e assume e: "e \<in> {(x, q). (x, q) \<in> allocated_leaves t \<and> \<not> prefix p q}"
  then obtain x q where xq: "e = (x, q)" "(x, q) \<in> allocated_leaves t" "\<not> prefix p q" by auto
  then have "q \<noteq> p" by auto
  with xq show "e \<in> allocated_leaves t - {(r, p)}" by simp
next
  fix e assume e: "e \<in> allocated_leaves t - {(r, p)}"
  obtain x q where xq: "e = (x, q)" by (cases e)
  with e have n: "node_at t q = Some (Node x True [])" by (simp add: allocated_leaf_iff)
  have "q \<noteq> p"
  proof
    assume "q = p"
    with n assms e xq show False by simp
  qed
  then have "\<not> prefix p q" using leaf_prefix_iff [OF assms n] by simp
  with e xq show "e \<in> {(x, q). (x, q) \<in> allocated_leaves t \<and> \<not> prefix p q}" by simp
qed

section \<open>Allocate keeps the manager consistent\<close>

lemma consistent_butD:
  assumes "consistent_but N s"
  shows "R (m_Root s) = Region 0 0 (m_Width s) (m_Height s)" "wf_node (m_Root s)"
    "indices_hold s (free_leaves (m_Root s)) (allocated_leaves (m_Root s))"
    "merged_but N (m_Root s)"
  using assms by (simp_all add: consistent_but_def tree_ok_def indices_ok_hold)

lemma consistent_butI:
  assumes "R (m_Root s) = Region 0 0 (m_Width s) (m_Height s)" "wf_node (m_Root s)"
    "indices_hold s (free_leaves (m_Root s)) (allocated_leaves (m_Root s))"
    "merged_but N (m_Root s)"
  shows "consistent_but N s"
  using assms by (simp add: consistent_but_def tree_ok_def indices_ok_hold)

lemma node_no_wrap:
  assumes "R t = Region 0 0 W H" "wf_node t" "node_at t p = Some n"
  shows "unat (rx (R n)) + unat (width (R n)) < 2 ^ 32 \<and>
         unat (ry (R n)) + unat (height (R n)) < 2 ^ 32 \<and> inside (R n) (Region 0 0 W H)"
proof -
  have i: "inside (R n) (Region 0 0 W H)"
    using wf_node_at [OF assms(2,3)] assms(1) by simp
  have "unat W < 2 ^ LENGTH(32)" "unat H < 2 ^ LENGTH(32)"
    by (rule unsigned_less)+
  then have "unat W < 2 ^ 32" "unat H < 2 ^ 32" by simp_all
  with i show ?thesis by (simp add: inside_def)
qed

lemma wf_node_children:
  "wf_node (Node r a cs) \<longleftrightarrow>
     cs = [] \<or>
     (\<not> a \<and> (\<forall>c \<in> set cs. \<not> IsEmpty (R c) \<and> inside (R c) r \<and> wf_node c) \<and>
      sorted_wrt (\<lambda>a b. \<not> overlap a b) (map R cs))"
  using apart_iff_sorted_wrt [of "map R cs"] by auto

lemma apart_distinct:
  assumes "sorted_wrt (\<lambda>a b. \<not> overlap a b) l" "\<forall>x \<in> set l. \<not> IsEmpty x"
    "i < length l" "j < length l" "i \<noteq> j"
  shows "l ! i \<noteq> l ! j"
proof
  assume e: "l ! i = l ! j"
  have "\<not> overlap (l ! i) (l ! j)"
    using apart_iff_sorted_wrt [of l] assms(1,3,4,5) by blast
  moreover have "overlap (l ! i) (l ! i)"
    using assms(2,3) overlap_self by simp
  ultimately show False using e by simp
qed

lemma inner_region_fresh:
  assumes "wf_node t" "node_at t p = Some (Node r a [])" "\<not> IsEmpty x" "inside x r"
    and "(x, q) \<in> free_leaves t \<union> allocated_leaves t"
  shows "q = p"
proof (rule ccontr)
  assume "q \<noteq> p"
  from leaf_other_regions [OF assms(1,2,5) this] have "\<not> overlap r x" .
  moreover have "overlap r x"
    using overlap_self [OF assms(3)] assms(4) overlap_inside1 by blast
  ultimately show False by simp
qed

lemma inner_region_not_key:
  assumes "wf_node t" "node_at t p = Some (Node r False [])" "\<not> IsEmpty x" "inside x r"
  shows "x \<notin> fst ` (free_leaves t - {(r, p)})" "x \<notin> fst ` allocated_leaves t"
proof -
  show "x \<notin> fst ` (free_leaves t - {(r, p)})"
  proof
    assume "x \<in> fst ` (free_leaves t - {(r, p)})"
    then obtain e where e: "e \<in> free_leaves t - {(r, p)}" "fst e = x" by auto
    then obtain q where "e = (x, q)" by (cases e) auto
    with e have q: "(x, q) \<in> free_leaves t" "(x, q) \<noteq> (r, p)" by auto
    then have "q = p" using inner_region_fresh [OF assms, of q] by simp
    with q assms(2) show False by (simp add: free_leaf_iff)
  qed
  show "x \<notin> fst ` allocated_leaves t"
  proof
    assume "x \<in> fst ` allocated_leaves t"
    then obtain q where q: "(x, q) \<in> allocated_leaves t" by auto
    then have "q = p" using inner_region_fresh [OF assms, of q] by simp
    with q assms(2) show False by (simp add: allocated_leaf_iff)
  qed
qed

text \<open>
  A free leaf is replaced by a node that is allocated or has children, and the indices
  follow: the manager stays consistent.
\<close>

lemma consistent_replace_leaf:
  assumes c: "consistent s" and leaf: "node_at (m_Root s) p = Some (Node r False [])"
    and n': "R n' = r" "wf_node n'" "IsAllocated n' \<or> Children n' \<noteq> []"
    and sub: "\<And>q' m. node_at n' q' = Some m \<Longrightarrow> HasChildren m \<Longrightarrow> \<not> CanMergeChildren m"
    and root: "m_Root s' = replace_at p n' (m_Root s)"
    and dims: "m_Width s' = m_Width s" "m_Height s' = m_Height s"
    and hold: "indices_hold s'
        ((free_leaves (m_Root s) - {(r, p)}) \<union> {(x, p @ q') | x q'. (x, q') \<in> free_leaves n'})
        (allocated_leaves (m_Root s) \<union> {(x, p @ q') | x q'. (x, q') \<in> allocated_leaves n'})"
  shows "consistent s'"
proof -
  note cs = consistent_butD [OF c [unfolded consistent_def]]
  have 1: "R (m_Root s') = Region 0 0 (m_Width s') (m_Height s')"
    using replace_at_R [OF leaf, of n'] n'(1) cs(1) root dims by simp
  have 2: "wf_node (m_Root s')"
    unfolding root using wf_replace [OF cs(2) leaf n'(2)] n'(1) by simp
  have al: "allocated_leaves (m_Root s) - {(r, p)} = allocated_leaves (m_Root s)"
    using leaf by (auto simp: allocated_leaf_iff)
  have 3: "indices_hold s' (free_leaves (m_Root s')) (allocated_leaves (m_Root s'))"
    unfolding root free_leaves_replace [OF leaf] allocated_leaves_replace [OF leaf]
      free_leaves_not_below [OF leaf] allocated_leaves_not_below [OF leaf] al
    using hold by (simp add: Un_commute)
  have 4: "merged_but None (m_Root s')"
    unfolding root
  proof (rule merged_but_replace [OF cs(4) _ leaf])
    show "None = None \<or> None = Some p" by simp
    show "IsAllocated n' \<or> Children n' \<noteq> [] \<or> None = Parent p" using n'(3) by blast
    show "None = Some (p @ q')" if "node_at n' q' = Some m" "HasChildren m" "CanMergeChildren m" for q' m
      using sub [OF that(1,2)] that(3) by simp
  qed
  from consistent_butI [OF 1 2 3 4] show ?thesis by (simp add: consistent_def)
qed

lemma PlaceRegion_step:
  assumes c: "consistent s" and leaf: "node_at (m_Root s) p = Some (Node r False [])"
    and fit: "fits w h r" and pos: "0 < w" "0 < h"
  shows "\<exists>s' n'. PlaceRegion p w h s = Some (Region (rx r) (ry r) w h, s') \<and> consistent s' \<and>
      m_Width s' = m_Width s \<and> m_Height s' = m_Height s \<and>
      m_Root s' = replace_at p n' (m_Root s) \<and>
      (n' = Node r True [] \<and> r = Region (rx r) (ry r) w h \<or>
       (\<exists>cs. n' = Node r False (Node (Region (rx r) (ry r) w h) True [] # cs) \<and> cs \<noteq> [] \<and>
          (\<forall>c \<in> set cs. \<not> IsAllocated c \<and> Children c = []))) \<and>
      inside (Region (rx r) (ry r) w h) r"
proof -
  let ?t = "m_Root s"
  let ?r0 = "Region (rx r) (ry r) w h"
  note cs = consistent_butD [OF c [unfolded consistent_def]]
  have nw: "unat (rx r) + unat (width r) < 2 ^ 32" "unat (ry r) + unat (height r) < 2 ^ 32"
    using node_no_wrap [OF cs(1,2) leaf] by simp_all
  have le: "w \<le> width r" "h \<le> height r" using fit by (simp_all add: fits_def)
  have in0: "inside ?r0 r"
    by (rule split_geometry(1) [OF nw le(1) pos(1) le(2) pos(2)])
  let ?s1 = "UnregisterNode (Node r False []) s"
  have h1: "indices_hold ?s1 (free_leaves ?t - {(r, p)}) (allocated_leaves ?t)"
    using hold_Unregister_free [OF cs(3), of "Node r False []"] leaf_key_free [OF cs(2) leaf]
    by simp
  show ?thesis
    using nw fit pos
  proof (cases rule: SplitSource_cases [where a = False])
    case exact
    let ?n = "Node r True []"
    let ?s2 = "?s1\<lparr>m_Root := replace_at p ?n (m_Root ?s1)\<rparr>"
    let ?s' = "RegisterNode p ?n ?s2"
    have r0: "r = ?r0" using exact(1,2) by (cases r) simp
    have P: "PlaceRegion p w h s = Some (r, ?s')"
      using leaf exact(3) by (simp add: PlaceRegion_def HasChildren_def Let_def)
    have h2: "indices_hold ?s2 (free_leaves ?t - {(r, p)}) (allocated_leaves ?t)"
      using h1 by simp
    have fresh: "r \<notin> fst ` allocated_leaves ?t"
    proof
      assume "r \<in> fst ` allocated_leaves ?t"
      then obtain q where "node_at ?t q = Some (Node r True [])"
        by (auto simp: allocated_leaf_iff)
      from leaf_entry_unique [OF cs(2) leaf this] show False by simp
    qed
    have h3: "indices_hold ?s' (free_leaves ?t - {(r, p)}) (insert (r, p) (allocated_leaves ?t))"
      using hold_Register_allocated [OF h2, of ?n p] fresh by simp
    have "consistent ?s'"
      by (rule consistent_replace_leaf [OF c leaf, of ?n]) (use h3 in \<open>simp_all add: node_at_leaf HasChildren_def\<close>)
    with P r0 in0 show ?thesis
      by (intro exI [of _ ?s'] exI [of _ ?n]) simp
  next
    case (split rs)
    let ?cs = "Node ?r0 True [] # map (\<lambda>x. Node x False []) rs"
    let ?n = "Node r False ?cs"
    let ?s2 = "?s1\<lparr>m_Root := replace_at p ?n (m_Root ?s1)\<rparr>"
    let ?s' = "ProcessChildren RegisterNode p ?n ?s2"
    have A0: "AllocateChild0 (SplitSource w h (Node r False [])) = ?n"
      using split(1) by (simp add: AllocateChild0_def)
    have P: "PlaceRegion p w h s = Some (?r0, ?s')"
      using leaf A0 split(1) by (simp add: PlaceRegion_def HasChildren_def Let_def)
    have Rcs: "map R ?cs = ?r0 # rs" by (simp add: comp_def)
    have ne: "\<forall>x \<in> set (map R ?cs). \<not> IsEmpty x \<and> inside x r"
      unfolding Rcs using split(3) .
    have ap: "sorted_wrt (\<lambda>a b. \<not> overlap a b) (map R ?cs)"
      unfolding Rcs using split(4) .
    have leaves: "\<forall>c \<in> set ?cs. Children c = []" by auto
    have wfn: "wf_node ?n"
      unfolding wf_node_children using ne ap by auto
    have h2: "indices_hold ?s2 (free_leaves ?t - {(r, p)}) (allocated_leaves ?t)"
      using h1 by simp
    have Ri: "R (?cs ! i) = map R ?cs ! i" if "i < length ?cs" for i
      using that by (simp only: nth_map)
    have d: "\<forall>i < length (Children ?n). \<forall>j < length (Children ?n). i \<noteq> j \<longrightarrow>
           R (Children ?n ! i) \<noteq> R (Children ?n ! j)"
    proof (intro allI impI)
      fix i j assume ij: "i < length (Children ?n)" "j < length (Children ?n)" "i \<noteq> j"
      then have ij': "i < length (map R ?cs)" "j < length (map R ?cs)" by simp_all
      have "map R ?cs ! i \<noteq> map R ?cs ! j"
        by (rule apart_distinct [OF ap _ ij' ij(3)]) (use ne in blast)
      with ij show "R (Children ?n ! i) \<noteq> R (Children ?n ! j)"
        using Ri by simp
    qed
    have f: "\<forall>i < length (Children ?n). R (Children ?n ! i) \<notin> fst ` (free_leaves ?t - {(r, p)}) \<and>
           R (Children ?n ! i) \<notin> fst ` allocated_leaves ?t"
    proof (intro allI impI)
      fix i assume i: "i < length (Children ?n)"
      then have "map R ?cs ! i \<in> set (map R ?cs)" by (intro nth_mem) simp
      with ne have "\<not> IsEmpty (map R ?cs ! i)" "inside (map R ?cs ! i) r" by blast+
      with i have "\<not> IsEmpty (R (Children ?n ! i))" "inside (R (Children ?n ! i)) r"
        using Ri by simp_all
      from inner_region_not_key [OF cs(2) leaf this]
      show "R (Children ?n ! i) \<notin> fst ` (free_leaves ?t - {(r, p)}) \<and>
           R (Children ?n ! i) \<notin> fst ` allocated_leaves ?t" by simp
    qed
    have h3: "indices_hold ?s'
       ((free_leaves ?t - {(r, p)}) \<union> child_entries False p (Children ?n) (length (Children ?n)))
       (allocated_leaves ?t \<union> child_entries True p (Children ?n) (length (Children ?n)))"
      by (rule hold_ProcessChildren_Register [OF h2 d f])
    have lp: "{(x, p @ q') | x q'. (x, q') \<in> free_leaves ?n} = child_entries False p ?cs (length ?cs)"
      "{(x, p @ q') | x q'. (x, q') \<in> allocated_leaves ?n} = child_entries True p ?cs (length ?cs)"
      by (rule leaves_of_parent [OF leaves], simp)+
    have nm: "\<not> CanMergeChildren m" if "node_at ?n q' = Some m" "HasChildren m" for q' m
    proof -
      have "q' = []"
      proof (cases q')
        case Nil
        then show ?thesis .
      next
        case (Cons i q'')
        with that(1) have i: "i < length ?cs" "node_at (?cs ! i) q'' = Some m"
          by (auto split: if_splits)
        then have "Children (?cs ! i) = []" using leaves by (metis nth_mem)
        then obtain ri ai where "?cs ! i = Node ri ai []" by (cases "?cs ! i") auto
        with i(2) have "m = Node ri ai []" by (simp add: node_at_leaf)
        with that(2) show ?thesis by (simp add: HasChildren_def)
      qed
      with that(1) have "m = ?n" by simp
      then show ?thesis by (simp add: CanMergeChildren_iff)
    qed
    have "consistent ?s'"
    proof (rule consistent_replace_leaf [OF c leaf, of ?n])
      show "indices_hold ?s'
        ((free_leaves ?t - {(r, p)}) \<union> {(x, p @ q') | x q'. (x, q') \<in> free_leaves ?n})
        (allocated_leaves ?t \<union> {(x, p @ q') | x q'. (x, q') \<in> allocated_leaves ?n})"
        unfolding lp using h3 by simp
    qed (use wfn nm in simp_all)
    moreover have "\<forall>c \<in> set (map (\<lambda>x. Node x False []) rs). \<not> IsAllocated c \<and> Children c = []"
      by auto
    ultimately show ?thesis
      using P in0 split(2)
      by (intro exI [of _ ?s'] exI [of _ ?n]) simp
  qed
qed

lemma SelectSource_Some:
  assumes "SelectSource it_w it_h = Some p"
  shows "(\<exists>e it. it_w = e # it \<and> snd e = p) \<or> (\<exists>e it. it_h = e # it \<and> snd e = p)"
  using assms
  by (cases it_w; cases it_h)
    (auto simp: SelectSource_def IterSecond_def IterArea_def Let_def split: if_splits)

lemma SourceNode_leaf:
  assumes c: "consistent s" and src: "SourceNode w h s = Some p"
  shows "\<exists>r. node_at (m_Root s) p = Some (Node r False []) \<and> fits w h r"
proof -
  note cs = consistent_butD [OF c [unfolded consistent_def]]
  have sw: "sorted_wrt WidthThenHeightCmp (map fst (m_FreeRegionsByWidth s))"
    and sh: "sorted_wrt HeightThenWidthCmp (map fst (m_FreeRegionsByHeight s))"
    and fw: "set (m_FreeRegionsByWidth s) = free_leaves (m_Root s)"
    and fh: "set (m_FreeRegionsByHeight s) = free_leaves (m_Root s)"
    using cs(3) by (simp_all add: indices_hold_def)
  from SelectSource_Some [OF src [unfolded SourceNode_def]]
  obtain e it where "e \<in> free_leaves (m_Root s)" "fits w h (fst e)" "snd e = p"
    using FindByWidth_head [OF sw] FindByHeight_head [OF sh] fw fh by blast
  then show ?thesis by (cases e) (auto simp: free_leaf_iff)
qed

lemma Allocate_step:
  assumes c: "consistent s" and pos: "0 < w" "0 < h" and src: "SourceNode w h s = Some p"
  shows "\<exists>r s' n'. node_at (m_Root s) p = Some (Node r False []) \<and> fits w h r \<and>
      Allocate w h s = Some (Region (rx r) (ry r) w h, s') \<and> consistent s' \<and>
      m_Width s' = m_Width s \<and> m_Height s' = m_Height s \<and>
      m_Root s' = replace_at p n' (m_Root s) \<and>
      (n' = Node r True [] \<and> r = Region (rx r) (ry r) w h \<or>
       (\<exists>cs. n' = Node r False (Node (Region (rx r) (ry r) w h) True [] # cs) \<and> cs \<noteq> [] \<and>
          (\<forall>c \<in> set cs. \<not> IsAllocated c \<and> Children c = []))) \<and>
      inside (Region (rx r) (ry r) w h) r"
proof -
  from SourceNode_leaf [OF c src] obtain r
    where r: "node_at (m_Root s) p = Some (Node r False [])" "fits w h r" by blast
  from PlaceRegion_step [OF c r pos] r src show ?thesis
    by (simp add: Allocate_def)
qed

lemma Allocate_consistent:
  assumes "consistent s" "0 < w" "0 < h"
  shows "\<exists>r' s'. Allocate w h s = Some (r', s') \<and> consistent s' \<and>
     m_Width s' = m_Width s \<and> m_Height s' = m_Height s"
proof (cases "SourceNode w h s")
  case None
  with assms(1) show ?thesis by (simp add: Allocate_def)
next
  case (Some p)
  from Allocate_step [OF assms Some] show ?thesis by blast
qed

section \<open>Free keeps the manager consistent\<close>

lemma MergeStep_fields [simp]:
  "m_Root (MergeStep pN N s) = replace_at pN (MergeChildren N) (m_Root s)"
  "m_Width (MergeStep pN N s) = m_Width s"
  "m_Height (MergeStep pN N s) = m_Height s"
  by (simp_all add: MergeStep_def Let_def)

lemma parent_has_children:
  assumes "node_at t p = Some n" "Parent p = Some q"
  shows "\<exists>m. node_at t q = Some m \<and> Children m \<noteq> []"
proof -
  from assms(2) have "p \<noteq> []" "q = butlast p" by (auto simp: Parent_def split: if_splits)
  then have "p = q @ [last p]" by simp
  with assms(1) have "node_at t (q @ [last p]) = Some n" by simp
  then show ?thesis unfolding node_at_snoc by auto
qed

lemma merged_at_None:
  assumes "merged_but (Some p) t" "node_at t p = Some n" "\<not> CanMergeChildren n"
  shows "merged_but None t"
  unfolding merged_but_def
proof (intro allI impI)
  fix q m assume m: "node_at t q = Some m" "HasChildren m" "CanMergeChildren m"
  with assms(1) have "Some p = Some q" by (simp add: merged_but_def)
  with m assms(2,3) show "None = Some q" by simp
qed

lemma release_consistent:
  assumes c: "consistent s" and leaf: "node_at (m_Root s) p = Some (Node r True [])"
  defines "s3 \<equiv> RegisterNode p (Node r False [])
      ((UnregisterNode (Node r True []) s)
         \<lparr>m_Root := replace_at p (Node r False []) (m_Root (UnregisterNode (Node r True []) s))\<rparr>)"
  shows "consistent_but (Parent p) s3 \<and> m_Root s3 = replace_at p (Node r False []) (m_Root s) \<and>
     m_Width s3 = m_Width s \<and> m_Height s3 = m_Height s"
proof -
  let ?t = "m_Root s"
  let ?n = "Node r False []"
  note cs = consistent_butD [OF c [unfolded consistent_def]]
  have root: "m_Root s3 = replace_at p ?n ?t" and dims: "m_Width s3 = m_Width s" "m_Height s3 = m_Height s"
    by (simp_all add: s3_def)
  have h1: "indices_hold (UnregisterNode (Node r True []) s) (free_leaves ?t) (allocated_leaves ?t - {(r, p)})"
    using hold_Unregister_allocated [OF cs(3), of "Node r True []"] leaf_key_allocated [OF cs(2) leaf]
    by simp
  have fresh: "r \<notin> fst ` free_leaves ?t"
  proof
    assume "r \<in> fst ` free_leaves ?t"
    then obtain q where "node_at ?t q = Some (Node r False [])"
      by (auto simp: free_leaf_iff)
    from leaf_entry_unique [OF cs(2) leaf this] show False by simp
  qed
  have h3: "indices_hold s3 (insert (r, p) (free_leaves ?t)) (allocated_leaves ?t - {(r, p)})"
    unfolding s3_def
    using hold_Register_free [of _ "free_leaves ?t" "allocated_leaves ?t - {(r, p)}" ?n p] h1 fresh
    by simp
  have fl: "free_leaves ?t - {(r, p)} = free_leaves ?t"
    using leaf by (auto simp: free_leaf_iff)
  have 1: "R (m_Root s3) = Region 0 0 (m_Width s3) (m_Height s3)"
    using replace_at_R [OF leaf, of ?n] cs(1) root dims by simp
  have 2: "wf_node (m_Root s3)"
    unfolding root using wf_replace [OF cs(2) leaf, of ?n] by simp
  have 3: "indices_hold s3 (free_leaves (m_Root s3)) (allocated_leaves (m_Root s3))"
    unfolding root free_leaves_replace [OF leaf] allocated_leaves_replace [OF leaf]
      free_leaves_not_below [OF leaf] allocated_leaves_not_below [OF leaf] fl
    using h3 by simp
  have 4: "merged_but (Parent p) (m_Root s3)"
    unfolding root
  proof (rule merged_but_replace [OF cs(4) _ leaf])
    show "None = None \<or> None = Some p" by simp
    show "IsAllocated ?n \<or> Children ?n \<noteq> [] \<or> Parent p = Parent p" by simp
    show "Parent p = Some (p @ q')" if "node_at ?n q' = Some m" "HasChildren m" for q' m
      using that by (simp add: node_at_leaf HasChildren_def)
  qed
  from consistent_butI [OF 1 2 3 4] root dims show ?thesis by simp
qed

lemma merge_step_consistent:
  assumes c: "consistent_but (Some p) s" and n: "node_at (m_Root s) p = Some n"
    and ch: "Children n \<noteq> []" and cm: "CanMergeChildren n"
  shows "consistent_but (Parent p) (MergeStep p n s)"
proof -
  let ?t = "m_Root s"
  let ?cs = "Children n"
  let ?n = "Node (R n) False []"
  let ?s' = "MergeStep p n s"
  note cs = consistent_butD [OF c]
  have wn: "wf_node n" using wf_node_at [OF cs(2) n] by simp
  have na: "\<not> IsAllocated n" using wn ch by (cases n) auto
  have kids: "\<forall>c \<in> set ?cs. \<not> IsAllocated c \<and> Children c = []"
    using cm by (simp add: CanMergeChildren_iff)
  have M: "MergeChildren n = ?n" using na by (simp add: MergeChildren_def)
  have root: "m_Root ?s' = replace_at p ?n ?t" by (simp add: M)
  have child: "node_at ?t (p @ [i]) = Some (Node (R (?cs ! i)) False [])" if "i < length ?cs" for i
  proof -
    have "?cs ! i \<in> set ?cs" using that by simp
    with kids have "?cs ! i = Node (R (?cs ! i)) False []" by (cases "?cs ! i") auto
    with that n show ?thesis unfolding node_at_snoc by simp
  qed
  have below: "\<exists>i < length ?cs. q = p @ [i] \<and> m = ?cs ! i"
    if "node_at ?t q = Some m" "prefix p q" "Children m = []" for q m
  proof -
    from that(2) obtain q' where q: "q = p @ q'" by (auto simp: prefix_def)
    with that(1) n have m: "node_at n q' = Some m" by (simp add: node_at_append)
    show ?thesis
    proof (cases q')
      case Nil
      with m that(3) ch show ?thesis by simp
    next
      case (Cons i q'')
      with m have i: "i < length ?cs" "node_at (?cs ! i) q'' = Some m"
        by (cases n; auto split: if_splits)+
      then have "Children (?cs ! i) = []" using kids by simp
      then obtain ri ai where "?cs ! i = Node ri ai []" by (cases "?cs ! i") auto
      with i(2) have "q'' = []" "m = ?cs ! i" by (simp_all add: node_at_leaf)
      with Cons q i(1) show ?thesis by simp
    qed
  qed
  have Feq: "{e \<in> free_leaves ?t. fst e \<notin> R ` set ?cs} = {(x, q). (x, q) \<in> free_leaves ?t \<and> \<not> prefix p q}"
  proof (intro set_eqI iffI)
    fix e assume e: "e \<in> {e \<in> free_leaves ?t. fst e \<notin> R ` set ?cs}"
    obtain x q where xq: "e = (x, q)" by (cases e)
    with e have m: "node_at ?t q = Some (Node x False [])" "x \<notin> R ` set ?cs"
      by (simp_all add: free_leaf_iff)
    have "\<not> prefix p q"
    proof
      assume "prefix p q"
      from below [OF m(1) this] obtain i where "i < length ?cs" "Node x False [] = ?cs ! i" by auto
      then have "x \<in> R ` set ?cs" by (metis Node.sel(1) image_eqI nth_mem)
      with m(2) show False by simp
    qed
    with e xq show "e \<in> {(x, q). (x, q) \<in> free_leaves ?t \<and> \<not> prefix p q}" by simp
  next
    fix e assume e: "e \<in> {(x, q). (x, q) \<in> free_leaves ?t \<and> \<not> prefix p q}"
    then obtain x q where xq: "e = (x, q)" "node_at ?t q = Some (Node x False [])" "\<not> prefix p q"
      by (auto simp: free_leaf_iff)
    have "x \<notin> R ` set ?cs"
    proof
      assume "x \<in> R ` set ?cs"
      then obtain i where i: "i < length ?cs" "x = R (?cs ! i)"
        by (auto simp: in_set_conv_nth)
      from child [OF i(1)] i(2) have "node_at ?t (p @ [i]) = Some (Node x False [])" by simp
      from leaf_entry_unique [OF cs(2) xq(2) this] have "p @ [i] = q" by simp
      then have "prefix p q" by auto
      with xq(3) show False by simp
    qed
    with xq show "e \<in> {e \<in> free_leaves ?t. fst e \<notin> R ` set ?cs}" by (simp add: free_leaf_iff)
  qed
  have Aeq: "{(x, q). (x, q) \<in> allocated_leaves ?t \<and> \<not> prefix p q} = allocated_leaves ?t"
  proof (intro set_eqI iffI)
    fix e assume "e \<in> {(x, q). (x, q) \<in> allocated_leaves ?t \<and> \<not> prefix p q}"
    then show "e \<in> allocated_leaves ?t" by auto
  next
    fix e assume e: "e \<in> allocated_leaves ?t"
    obtain x q where xq: "e = (x, q)" by (cases e)
    with e have m: "node_at ?t q = Some (Node x True [])" by (simp add: allocated_leaf_iff)
    have "\<not> prefix p q"
    proof
      assume "prefix p q"
      from below [OF m this] obtain i where "i < length ?cs" "Node x True [] = ?cs ! i" by auto
      then have "Node x True [] \<in> set ?cs" by (metis nth_mem)
      with kids show False by auto
    qed
    with e xq show "e \<in> {(x, q). (x, q) \<in> allocated_leaves ?t \<and> \<not> prefix p q}" by simp
  qed
  have ne: "\<not> IsEmpty (R n)"
  proof -
    from ch obtain c where c: "c \<in> set ?cs" by (cases ?cs) auto
    with wn ch have "\<not> IsEmpty (R c)" "inside (R c) (R n)" by (cases n; auto)+
    then show ?thesis using inside_nonempty by blast
  qed
  have fresh: "R n \<notin> fst ` {e \<in> free_leaves ?t. fst e \<notin> R ` set ?cs}"
  proof
    assume "R n \<in> fst ` {e \<in> free_leaves ?t. fst e \<notin> R ` set ?cs}"
    then obtain e where e: "e \<in> {e \<in> free_leaves ?t. fst e \<notin> R ` set ?cs}" "fst e = R n" by auto
    then obtain q where q: "e = (R n, q)" by (cases e) auto
    with e(1) have "(R n, q) \<in> {(x, q). (x, q) \<in> free_leaves ?t \<and> \<not> prefix p q}"
      unfolding Feq by simp
    then have m: "node_at ?t q = Some (Node (R n) False [])" "\<not> prefix p q"
      by (simp_all add: free_leaf_iff)
    have "\<not> prefix q p"
    proof
      assume "prefix q p"
      from leaf_not_above [OF m(1) _ this n] have "p = q" by simp
      with m(2) show False by simp
    qed
    with m(2) have "p \<parallel> q" by (simp add: parallel_def)
    from wf_parallel_no_overlap [OF cs(2) this n m(1)] have "\<not> overlap (R n) (R n)" by simp
    with overlap_self [OF ne] show False by simp
  qed
  have h1: "indices_hold (ProcessChildren (\<lambda>pC. UnregisterNode) p n s)
       {e \<in> free_leaves ?t. fst e \<notin> R ` set ?cs} (allocated_leaves ?t)"
    by (rule hold_ProcessChildren_Unregister [OF cs(3)]) (use kids in simp)
  have h3: "indices_hold ?s' (insert (R n, p) {e \<in> free_leaves ?t. fst e \<notin> R ` set ?cs}) (allocated_leaves ?t)"
    unfolding MergeStep_def Let_def M
    using hold_Register_free [of _ "{e \<in> free_leaves ?t. fst e \<notin> R ` set ?cs}" "allocated_leaves ?t" ?n p]
      h1 fresh by simp
  have 1: "R (m_Root ?s') = Region 0 0 (m_Width ?s') (m_Height ?s')"
    using replace_at_R [OF n, of ?n] cs(1) root by simp
  have 2: "wf_node (m_Root ?s')"
    unfolding root using wf_replace [OF cs(2) n, of ?n] by simp
  have 3: "indices_hold ?s' (free_leaves (m_Root ?s')) (allocated_leaves (m_Root ?s'))"
    unfolding root free_leaves_replace [OF n] allocated_leaves_replace [OF n] Aeq Feq [symmetric]
    using h3 by simp
  have 4: "merged_but (Parent p) (m_Root ?s')"
    unfolding root
  proof (rule merged_but_replace [OF cs(4) _ n])
    show "Some p = None \<or> Some p = Some p" by simp
    show "IsAllocated ?n \<or> Children ?n \<noteq> [] \<or> Parent p = Parent p" by simp
    show "Parent p = Some (p @ q')" if "node_at ?n q' = Some m" "HasChildren m" for q' m
      using that by (simp add: node_at_leaf HasChildren_def)
  qed
  from consistent_butI [OF 1 2 3 4] show ?thesis .
qed

lemma MergeLoop_consistent:
  "consistent_but N s \<Longrightarrow>
   (\<And>pN. N = Some pN \<Longrightarrow> \<exists>n. node_at (m_Root s) pN = Some n \<and> Children n \<noteq> []) \<Longrightarrow>
   \<exists>s'. MergeLoop N s = Some s' \<and> consistent s' \<and>
      m_Width s' = m_Width s \<and> m_Height s' = m_Height s"
proof (induction N s rule: MergeLoop.induct)
  case (1 s)
  then show ?case by (simp add: consistent_def)
next
  case (2 pN s)
  from "2.prems"(2) [OF refl] obtain n where n: "node_at (m_Root s) pN = Some n" "Children n \<noteq> []"
    by blast
  show ?case
  proof (cases "CanMergeChildren n")
    case False
    have "merged_but None (m_Root s)"
      using merged_at_None [OF _ n(1) False] consistent_butD(4) [OF "2.prems"(1)] by simp
    then have "consistent s"
      using "2.prems"(1) by (simp add: consistent_def consistent_but_def)
    with n False show ?thesis by simp
  next
    case True
    let ?s = "MergeStep pN n s"
    have c: "consistent_but (Parent pN) ?s"
      by (rule merge_step_consistent [OF "2.prems"(1) n True])
    have v: "\<exists>m. node_at (m_Root ?s) q = Some m \<and> Children m \<noteq> []" if "Parent pN = Some q" for q
    proof (rule parent_has_children [OF _ that])
      show "node_at (m_Root ?s) pN = Some (MergeChildren n)"
        using node_at_replace_self [OF n(1)] by simp
    qed
    from "2.IH" [OF n(1) True c v] n True show ?thesis by simp
  qed
qed

lemma Free_consistent:
  assumes c: "consistent s"
  shows "\<exists>u r' s'. Free r s = Some (u, r', s') \<and> consistent s' \<and>
     m_Width s' = m_Width s \<and> m_Height s' = m_Height s \<and>
     u = (m_AllocatedRegions s r = None) \<and>
     r' = (if m_AllocatedRegions s r = None then r else InvalidRegion)"
proof (cases "m_AllocatedRegions s r")
  case None
  with c show ?thesis
    by (intro exI [of _ True] exI [of _ r] exI [of _ s]) (simp add: Free_def)
next
  case (Some p)
  note cs = consistent_butD [OF c [unfolded consistent_def]]
  have "(r, p) \<in> Map.graph (m_AllocatedRegions s)" using Some by (rule in_graphI)
  then have leaf: "node_at (m_Root s) p = Some (Node r True [])"
    using cs(3) by (simp add: indices_hold_def allocated_leaf_iff)
  let ?s3 = "RegisterNode p (Node r False [])
      ((UnregisterNode (Node r True []) s)
         \<lparr>m_Root := replace_at p (Node r False []) (m_Root (UnregisterNode (Node r True []) s))\<rparr>)"
  note rel = release_consistent [OF c leaf]
  have v: "\<exists>m. node_at (m_Root ?s3) q = Some m \<and> Children m \<noteq> []" if "Parent p = Some q" for q
  proof (rule parent_has_children [OF _ that])
    show "node_at (m_Root ?s3) p = Some (Node r False [])"
      using node_at_replace_self [OF leaf] by simp
  qed
  from MergeLoop_consistent [of "Parent p" ?s3] rel v
  obtain s' where s': "MergeLoop (Parent p) ?s3 = Some s'" "consistent s'"
    "m_Width s' = m_Width s" "m_Height s' = m_Height s" by auto
  have "Free r s = Some (False, InvalidRegion, s')"
    using Some leaf s'(1) by (simp add: Free_def Let_def)
  with s' Some show ?thesis
    by (intro exI [of _ False] exI [of _ InvalidRegion] exI [of _ s']) simp
qed

text \<open>
  The invariant: every manager reached by legal calls has a well-formed tree whose root
  covers the atlas, indices that hold exactly its leaves, and no node left to merge.
\<close>

theorem reachable_consistent: "reachable s \<Longrightarrow> consistent s"
proof (induction rule: reachable.induct)
  case (reach_new W H)
  show ?case by (rule consistent_new)
next
  case (reach_Allocate s w h r s')
  from Allocate_consistent [OF reach_Allocate.IH reach_Allocate.hyps(2,3)] reach_Allocate.hyps(4)
  show ?case by auto
next
  case (reach_Free s r u r' s')
  from Free_consistent [OF reach_Free.IH, of r] reach_Free.hyps(2)
  show ?case by auto
qed

section \<open>Round trips\<close>

lemma consistent_unique:
  assumes "consistent s" "consistent s'" "m_Root s' = m_Root s"
    "m_Width s' = m_Width s" "m_Height s' = m_Height s"
  shows "s' = s"
proof -
  have h: "indices_hold s (free_leaves (m_Root s)) (allocated_leaves (m_Root s))"
    "indices_hold s' (free_leaves (m_Root s)) (allocated_leaves (m_Root s))"
    using consistent_butD(3) [OF assms(1) [unfolded consistent_def]]
      consistent_butD(3) [OF assms(2) [unfolded consistent_def]] assms(3) by simp_all
  from hold_unique [OF h] assms(3,4,5) show ?thesis by (intro Manager.equality) simp_all
qed

lemma MergeLoop_stops:
  assumes "merged_but None (m_Root s)"
    and "\<And>pN. N = Some pN \<Longrightarrow> \<exists>n. node_at (m_Root s) pN = Some n \<and> Children n \<noteq> []"
  shows "MergeLoop N s = Some s"
proof (cases N)
  case None
  then show ?thesis by simp
next
  case (Some pN)
  from assms(2) [OF Some] obtain n where n: "node_at (m_Root s) pN = Some n" "Children n \<noteq> []"
    by blast
  with assms(1) have "\<not> CanMergeChildren n"
    by (auto simp: merged_but_def HasChildren_def)
  with Some n show ?thesis by simp
qed

lemma allocated_entry:
  assumes "consistent s"
  shows "m_AllocatedRegions s r = Some p \<longleftrightarrow> node_at (m_Root s) p = Some (Node r True [])"
proof -
  have "Map.graph (m_AllocatedRegions s) = allocated_leaves (m_Root s)"
    using consistent_butD(3) [OF assms [unfolded consistent_def]] by (simp add: indices_hold_def)
  then have "(r, p) \<in> Map.graph (m_AllocatedRegions s) \<longleftrightarrow> (r, p) \<in> allocated_leaves (m_Root s)"
    by simp
  then show ?thesis by (simp add: allocated_leaf_iff Map.graph_def)
qed

lemma Free_found:
  assumes "m_AllocatedRegions s r = Some p" "node_at (m_Root s) p = Some (Node r True [])"
  shows "Free r s = map_option (\<lambda>s4. (False, InvalidRegion, s4))
     (MergeLoop (Parent p)
        (RegisterNode p (Node r False [])
          ((UnregisterNode (Node r True []) s)\<lparr>m_Root := replace_at p (Node r False []) (m_Root s)\<rparr>)))"
  using assms by (simp add: Free_def Let_def map_option_case)

lemma Allocate_Free_restores:
  assumes c: "consistent s" and pos: "0 < w" "0 < h"
    and al: "Allocate w h s = Some (r', s')" and ne: "\<not> IsEmpty r'"
  shows "Free r' s' = Some (False, InvalidRegion, s)"
proof -
  let ?t = "m_Root s"
  note cs = consistent_butD [OF c [unfolded consistent_def]]
  obtain p where src: "SourceNode w h s = Some p"
    using al ne by (cases "SourceNode w h s") (auto simp: Allocate_def EmptyRegion_def IsEmpty_def)
  from Allocate_step [OF c pos src] al obtain r n'
    where leaf: "node_at ?t p = Some (Node r False [])"
      and r': "r' = Region (rx r) (ry r) w h"
      and c': "consistent s'" and dims: "m_Width s' = m_Width s" "m_Height s' = m_Height s"
      and root': "m_Root s' = replace_at p n' ?t"
      and shape: "n' = Node r True [] \<and> r = r' \<or>
         (\<exists>cs. n' = Node r False (Node r' True [] # cs) \<and> cs \<noteq> [] \<and>
            (\<forall>c \<in> set cs. \<not> IsAllocated c \<and> Children c = []))"
    by auto
  from Free_consistent [OF c', of r'] obtain u r2 s2
    where F: "Free r' s' = Some (u, r2, s2)" and c2: "consistent s2"
      and dims2: "m_Width s2 = m_Width s'" "m_Height s2 = m_Height s'"
    by blast
  have same: "replace_at p (Node r False []) ?t = ?t"
    by (rule replace_at_id [OF leaf])
  have pv: "\<exists>n. node_at ?t q = Some n \<and> Children n \<noteq> []" if "Parent p = Some q" for q
    by (rule parent_has_children [OF leaf that])
  have "\<exists>s4. Free r' s' = Some (False, InvalidRegion, s4) \<and> m_Root s4 = ?t"
    using shape
  proof (elim disjE conjE exE)
    assume n': "n' = Node r True []" and rr: "r = r'"
    have at: "node_at (m_Root s') p = Some (Node r' True [])"
      unfolding root' n' using node_at_replace_self [OF leaf] rr by simp
    then have m: "m_AllocatedRegions s' r' = Some p" by (simp add: allocated_entry [OF c'])
    let ?s3 = "RegisterNode p (Node r' False [])
          ((UnregisterNode (Node r' True []) s')\<lparr>m_Root := replace_at p (Node r' False []) (m_Root s')\<rparr>)"
    have r3: "m_Root ?s3 = ?t"
      using replace_replace_below [of p "Node r False []" "[]" n' ?t] same rr
      by (simp add: root')
    have "MergeLoop (Parent p) ?s3 = Some ?s3"
      by (rule MergeLoop_stops) (use r3 cs(4) pv in simp_all)
    with Free_found [OF m at] r3 show ?thesis by simp
  next
    fix cs assume n': "n' = Node r False (Node r' True [] # cs)" and cne: "cs \<noteq> []"
      and kids: "\<forall>c \<in> set cs. \<not> IsAllocated c \<and> Children c = []"
    have atp: "node_at (m_Root s') p = Some n'"
      unfolding root' by (rule node_at_replace_self [OF leaf])
    then have at: "node_at (m_Root s') (p @ [0]) = Some (Node r' True [])"
      unfolding node_at_snoc by (simp add: n')
    then have m: "m_AllocatedRegions s' r' = Some (p @ [0])" by (simp add: allocated_entry [OF c'])
    let ?s3 = "RegisterNode (p @ [0]) (Node r' False [])
          ((UnregisterNode (Node r' True []) s')
             \<lparr>m_Root := replace_at (p @ [0]) (Node r' False []) (m_Root s')\<rparr>)"
    let ?n3 = "Node r False (Node r' False [] # cs)"
    have r3: "m_Root ?s3 = replace_at (p @ [0]) (Node r' False []) (m_Root s')" by simp
    have n3: "node_at (m_Root ?s3) p = Some ?n3"
      unfolding r3 node_at_replace_above using atp by (simp add: n')
    have cm: "CanMergeChildren ?n3" using kids by (simp add: CanMergeChildren_iff)
    let ?s4 = "MergeStep p ?n3 ?s3"
    have r4: "m_Root ?s4 = ?t"
      using replace_replace_below [of p "Node r False []" "[0]" "Node r' False []" "m_Root s'"]
        replace_replace_below [of p "Node r False []" "[]" n' ?t] same
      by (simp add: MergeChildren_def root')
    have "MergeLoop (Parent p) ?s4 = Some ?s4"
      by (rule MergeLoop_stops) (use r4 cs(4) pv in simp_all)
    then have "MergeLoop (Parent (p @ [0])) ?s3 = Some ?s4"
      using n3 cm by (simp add: Parent_def)
    with Free_found [OF m at] r4 show ?thesis by simp
  qed
  then obtain s4 where s4: "Free r' s' = Some (False, InvalidRegion, s4)" "m_Root s4 = ?t"
    by blast
  with F have "s2 = s4" by simp
  with c2 dims2 dims s4(2) have "s4 = s"
    by (intro consistent_unique [OF c]) simp_all
  with s4(1) show ?thesis by simp
qed

subsection \<open>When nothing is allocated\<close>

lemma lowest_parent:
  "Children t \<noteq> [] \<Longrightarrow>
   \<exists>p n. node_at t p = Some n \<and> Children n \<noteq> [] \<and> (\<forall>c \<in> set (Children n). Children c = [])"
proof (induction t)
  case (Node r a cs)
  show ?case
  proof (cases "\<forall>c \<in> set cs. Children c = []")
    case True
    with Node.prems show ?thesis by (intro exI [of _ "[]"] exI [of _ "Node r a cs"]) simp
  next
    case False
    then obtain c where c: "c \<in> set cs" "Children c \<noteq> []" by blast
    then obtain i where i: "i < length cs" "cs ! i = c" by (auto simp: in_set_conv_nth)
    from Node.IH [OF c] obtain p n where
      "node_at c p = Some n" "Children n \<noteq> []" "\<forall>c \<in> set (Children n). Children c = []"
      by blast
    with i show ?thesis by (intro exI [of _ "i # p"] exI [of _ n]) simp
  qed
qed

lemma nothing_allocated_leaf:
  assumes c: "consistent s" and e: "m_AllocatedRegions s = Map.empty"
  shows "m_Root s = Node (Region 0 0 (m_Width s) (m_Height s)) False []"
proof -
  let ?t = "m_Root s"
  note cs = consistent_butD [OF c [unfolded consistent_def]]
  have none: "node_at ?t p \<noteq> Some (Node r True [])" for p r
    using allocated_entry [OF c, of r p] e by simp
  have leaf: "Children ?t = []"
  proof (rule ccontr)
    assume "Children ?t \<noteq> []"
    from lowest_parent [OF this] obtain p n where n: "node_at ?t p = Some n" "Children n \<noteq> []"
      "\<forall>c \<in> set (Children n). Children c = []" by blast
    with cs(4) have "\<not> CanMergeChildren n" by (auto simp: merged_but_def HasChildren_def)
    with n(3) obtain k where k: "k \<in> set (Children n)" "IsAllocated k" "Children k = []"
      by (auto simp: CanMergeChildren_iff)
    then obtain i where i: "i < length (Children n)" "Children n ! i = k"
      by (auto simp: in_set_conv_nth)
    have "k = Node (R k) True []" using k(2,3) by (cases k) simp
    with n(1) i have "node_at ?t (p @ [i]) = Some (Node (R k) True [])"
      unfolding node_at_snoc by simp
    with none show False by blast
  qed
  have "\<not> IsAllocated ?t"
  proof
    assume "IsAllocated ?t"
    with leaf have "?t = Node (R ?t) True []" by (cases ?t) simp
    then have "node_at ?t [] = Some (Node (R ?t) True [])" by simp
    with none show False by blast
  qed
  with leaf cs(1) show ?thesis by (cases ?t) simp
qed

lemma nothing_allocated_new:
  assumes c: "consistent s" and e: "m_AllocatedRegions s = Map.empty"
  shows "s = DynamicAtlasManager (m_Width s) (m_Height s)"
  by (rule consistent_unique [OF consistent_new c])
    (simp_all add: nothing_allocated_leaf [OF c e] DynamicAtlasManager_fields)

section \<open>Running the operations\<close>

lemmas run_defs =
  Allocate_def SourceNode_def SelectSource_def FindByWidth_def FindByHeight_def IterArea_def
  IterSecond_def PlaceRegion_def SplitSource_def Split_def AllocateChild0_def HasChildren_def
  ProcessChildren_def RegisterNode_def UnregisterNode_def DynamicAtlasManager_def
  WidthThenHeightCmp_def HeightThenWidthCmp_def hash_emplace_def EmptyRegion_def

lemma Allocate_wide: "Allocate 30 20 (DynamicAtlasManager 100 50) = Some (Region 0 0 30 20, wide_state)"
  by (simp add: run_defs wide_state_def)

lemma Allocate_tie: "Allocate 2 4 (DynamicAtlasManager 4 6) = Some (Region 0 0 2 4, tie_state)"
  by (simp add: run_defs tie_state_def)

lemma Allocate_wide_full: "Allocate 70 50 wide_state = Some (Region 30 0 70 50, wide_state_full)"
  by (simp add: run_defs wide_state_def wide_state_full_def fun_upd_twist)

lemma reachable_wide: "reachable wide_state"
  by (rule reach_Allocate [OF reach_new _ _ Allocate_wide]) simp_all

lemma reachable_tie: "reachable tie_state"
  by (rule reach_Allocate [OF reach_new _ _ Allocate_tie]) simp_all

section \<open>Properties of single calls\<close>

text \<open>
  C7. If \<^verbatim>\<open>Free\<close> is called with a region that is not in the map of allocated
  regions, it reports the region as unexpected and returns: the tree, both maps of free
  regions and the map of allocated regions are as before the call.
\<close>

theorem Free_unknown_region_unchanged:
  "m_AllocatedRegions s r = None \<Longrightarrow> Free r s = Some (True, r, s)"
  by (simp add: Free_def)

theorem Free_unknown_region_unchanged_witness:
  "m_AllocatedRegions wide_state (Region 30 0 70 50) = None \<and>
   Free (Region 30 0 70 50) wide_state = Some (True, Region 30 0 70 50, wide_state)"
proof -
  have h: "m_AllocatedRegions wide_state (Region 30 0 70 50) = None"
    by (simp add: wide_state_def)
  from h Free_unknown_region_unchanged [OF h] show ?thesis by simp
qed

text \<open>
  C9. \<^verbatim>\<open>Allocate\<close> compares the candidates by the product of width and height in
  32-bit arithmetic, which wraps around modulo \<open>2^32\<close>, and takes the product 0 for "no
  candidate": no source is chosen exactly when both products are 0. For the fresh
  manager of a 65536 by 65536 atlas the only free leaf fits a request of 1 by 1, its
  product is 0, and \<^verbatim>\<open>Allocate(1, 1)\<close> returns the empty region and leaves the manager
  as it was.
\<close>

theorem Allocate_area_wraps:
  "unat (IterArea ((r, p) # it)) = (unat (width r) * unat (height r)) mod 2 ^ 32 \<and>
   (SelectSource it_w it_h = None \<longleftrightarrow> IterArea it_w = 0 \<and> IterArea it_h = 0) \<and>
   m_FreeRegionsByWidth (DynamicAtlasManager 65536 65536) = [(Region 0 0 65536 65536, [])] \<and>
   fits 1 1 (Region 0 0 65536 65536) \<and>
   IterArea (FindByWidth 1 1 (DynamicAtlasManager 65536 65536)) = 0 \<and>
   IterArea (FindByHeight 1 1 (DynamicAtlasManager 65536 65536)) = 0 \<and>
   Allocate 1 1 (DynamicAtlasManager 65536 65536) = Some (EmptyRegion, DynamicAtlasManager 65536 65536) \<and>
   IsEmpty EmptyRegion"
proof -
  have 1: "unat (IterArea ((r, p) # it)) = (unat (width r) * unat (height r)) mod 2 ^ 32"
    by (simp add: IterArea_def unat_word_ariths)
  have 2: "SelectSource it_w it_h = None \<longleftrightarrow> IterArea it_w = 0 \<and> IterArea it_h = 0"
    by (cases it_w; cases it_h) (auto simp: SelectSource_def IterArea_def IterSecond_def Let_def word_gt_0)
  have 3: "m_FreeRegionsByWidth (DynamicAtlasManager 65536 65536) = [(Region 0 0 65536 65536, [])]"
    by (simp add: run_defs)
  have 4: "fits 1 1 (Region 0 0 65536 65536)"
    by (simp add: fits_def)
  have 5: "IterArea (FindByWidth 1 1 (DynamicAtlasManager 65536 65536)) = 0"
    "IterArea (FindByHeight 1 1 (DynamicAtlasManager 65536 65536)) = 0"
    by (simp_all add: run_defs)
  have 6: "Allocate 1 1 (DynamicAtlasManager 65536 65536) = Some (EmptyRegion, DynamicAtlasManager 65536 65536)"
    by (simp add: run_defs)
  have 7: "IsEmpty EmptyRegion" by (simp add: IsEmpty_def EmptyRegion_def)
  from 1 2 3 4 5 6 7 show ?thesis by blast
qed

text \<open>
  C5, as the code has it. When both searches find a candidate and the 32-bit products
  of width and height of the two are equal and not zero, \<^verbatim>\<open>Allocate\<close> takes the
  candidate of the by-height map as its source: \<^verbatim>\<open>AreaW < AreaH\<close> is false.
\<close>

theorem Allocate_tie_takes_by_height:
  assumes "FindByWidth w h s = a # ita" and "FindByHeight w h s = b # itb"
    and "width (fst a) * height (fst a) = width (fst b) * height (fst b)"
    and "width (fst b) * height (fst b) \<noteq> 0"
  shows "SourceNode w h s = Some (snd b) \<and> Allocate w h s = PlaceRegion (snd b) w h s"
  using assms
  by (simp add: Allocate_def SourceNode_def SelectSource_def IterArea_def IterSecond_def word_gt_0)

theorem Allocate_tie_takes_by_height_witness:
  "FindByWidth 1 1 tie_state = [(Region 2 0 2 4, [2]), (Region 0 4 4 2, [1])] \<and>
   FindByHeight 1 1 tie_state = [(Region 0 4 4 2, [1]), (Region 2 0 2 4, [2])] \<and>
   SourceNode 1 1 tie_state = Some [1] \<and>
   Allocate 1 1 tie_state = PlaceRegion [1] 1 1 tie_state"
proof -
  have a: "FindByWidth 1 1 tie_state = (Region 2 0 2 4, [2]) # [(Region 0 4 4 2, [1])]"
    by (simp add: FindByWidth_def tie_state_def WidthThenHeightCmp_def)
  have b: "FindByHeight 1 1 tie_state = (Region 0 4 4 2, [1]) # [(Region 2 0 2 4, [2])]"
    by (simp add: FindByHeight_def tie_state_def HeightThenWidthCmp_def)
  from a b Allocate_tie_takes_by_height [OF a b] show ?thesis by simp
qed

text \<open>
  The tie in a manager that two calls reach: after \<^verbatim>\<open>Allocate(2, 4)\<close> on a 4 by 6
  atlas, a request of 1 by 1 finds the leaf 2 by 4 in the by-width map and the leaf
  4 by 2 in the by-height map, both of area 8, and is placed in the second.
\<close>

theorem Allocate_tie_counterexample:
  "Allocate 2 4 (DynamicAtlasManager 4 6) = Some (Region 0 0 2 4, tie_state) \<and>
   IterSecond (FindByWidth 1 1 tie_state) = Some [2] \<and>
   IterSecond (FindByHeight 1 1 tie_state) = Some [1] \<and>
   IterArea (FindByWidth 1 1 tie_state) = 8 \<and>
   IterArea (FindByHeight 1 1 tie_state) = 8 \<and>
   SourceNode 1 1 tie_state = Some [1] \<and>
   SourceNode 1 1 tie_state \<noteq> IterSecond (FindByWidth 1 1 tie_state) \<and>
   map_option fst (Allocate 1 1 tie_state) = Some (Region 0 4 1 1)"
proof -
  have "IterSecond (FindByWidth 1 1 tie_state) = Some [2]"
    "IterSecond (FindByHeight 1 1 tie_state) = Some [1]"
    "IterArea (FindByWidth 1 1 tie_state) = 8"
    "IterArea (FindByHeight 1 1 tie_state) = 8"
    "SourceNode 1 1 tie_state = Some [1]"
    "map_option fst (Allocate 1 1 tie_state) = Some (Region 0 4 1 1)"
    by (simp_all add: run_defs tie_state_def)
  with Allocate_tie show ?thesis by simp
qed

text \<open>
  C6, as the code has it. An exact fit takes the source leaf out of both maps of free
  regions and changes nothing else in them: every other free leaf stays. The maps are
  empty afterwards when the source was their only entry.
\<close>

theorem Allocate_exact_fit_indices:
  assumes "SourceNode w h s = Some p" and "node_at (m_Root s) p = Some (Node r False [])"
    and "width r = w" and "height r = h"
  shows "\<exists>s'. Allocate w h s = Some (r, s') \<and>
     m_FreeRegionsByWidth s' = map_erase WidthThenHeightCmp r (m_FreeRegionsByWidth s) \<and>
     m_FreeRegionsByHeight s' = map_erase HeightThenWidthCmp r (m_FreeRegionsByHeight s) \<and>
     (m_FreeRegionsByWidth s = [(r, p)] \<longrightarrow> m_FreeRegionsByWidth s' = []) \<and>
     (m_FreeRegionsByHeight s = [(r, p)] \<longrightarrow> m_FreeRegionsByHeight s' = [])"
proof -
  have irr: "\<not> WidthThenHeightCmp r r" "\<not> HeightThenWidthCmp r r"
    by (simp_all add: WidthThenHeightCmp_def HeightThenWidthCmp_def)
  show ?thesis
    using assms irr
    by (auto simp: Allocate_def PlaceRegion_def SplitSource_def HasChildren_def
        RegisterNode_def UnregisterNode_def Let_def)
qed

theorem Allocate_exact_fit_indices_witness:
  "SourceNode 100 50 (DynamicAtlasManager 100 50) = Some [] \<and>
   node_at (m_Root (DynamicAtlasManager 100 50)) [] = Some (Node (Region 0 0 100 50) False []) \<and>
   (\<exists>s'. Allocate 100 50 (DynamicAtlasManager 100 50) = Some (Region 0 0 100 50, s') \<and>
      m_FreeRegionsByWidth s' = [] \<and> m_FreeRegionsByHeight s' = [])"
proof -
  have 1: "SourceNode 100 50 (DynamicAtlasManager 100 50) = Some []"
    by (simp add: run_defs)
  have 2: "node_at (m_Root (DynamicAtlasManager 100 50)) [] = Some (Node (Region 0 0 100 50) False [])"
    by (simp add: run_defs)
  have 3: "m_FreeRegionsByWidth (DynamicAtlasManager 100 50) = [(Region 0 0 100 50, [])]"
    "m_FreeRegionsByHeight (DynamicAtlasManager 100 50) = [(Region 0 0 100 50, [])]"
    by (simp_all add: run_defs)
  from Allocate_exact_fit_indices [OF 1 2] 3 1 2 show ?thesis by auto
qed

text \<open>
  An exact fit that leaves the maps of free regions not empty: in the manager of a
  100 by 50 atlas after \<^verbatim>\<open>Allocate(30, 20)\<close>, the call \<^verbatim>\<open>Allocate(70, 50)\<close> takes
  the whole free leaf at \<open>(30, 0)\<close>, and the free leaf at \<open>(0, 20)\<close> stays in both maps.
\<close>

theorem Allocate_exact_fit_counterexample:
  "Allocate 30 20 (DynamicAtlasManager 100 50) = Some (Region 0 0 30 20, wide_state) \<and>
   SourceNode 70 50 wide_state = Some [1] \<and>
   node_at (m_Root wide_state) [1] = Some (Node (Region 30 0 70 50) False []) \<and>
   Allocate 70 50 wide_state = Some (Region 30 0 70 50, wide_state_full) \<and>
   m_FreeRegionsByWidth wide_state_full = [(Region 0 20 30 30, [2])] \<and>
   m_FreeRegionsByHeight wide_state_full = [(Region 0 20 30 30, [2])] \<and>
   m_FreeRegionsByWidth wide_state_full \<noteq> [] \<and>
   m_FreeRegionsByHeight wide_state_full \<noteq> []"
proof -
  have "SourceNode 70 50 wide_state = Some [1]"
    "node_at (m_Root wide_state) [1] = Some (Node (Region 30 0 70 50) False [])"
    by (simp_all add: run_defs wide_state_def)
  moreover have "m_FreeRegionsByWidth wide_state_full = [(Region 0 20 30 30, [2])]"
    "m_FreeRegionsByHeight wide_state_full = [(Region 0 20 30 30, [2])]"
    by (simp_all add: wide_state_full_def)
  ultimately show ?thesis using Allocate_wide Allocate_wide_full by simp
qed

text \<open>
  C2. Let \<^verbatim>\<open>Allocate\<close> choose the free leaf at \<open>p\<close>, of region \<open>r\<close>, as its source.
  When only the width of \<open>r\<close> exceeds the request, the leaf gets two children, the
  placed rectangle and the strip at its right; when only the height exceeds, the placed
  rectangle and the strip above it; when both exceed, three children: for a region wider
  than high the strip of full height at the right and the strip above the placed
  rectangle, else the strip of full width above and the strip at the right of the placed
  rectangle. Child 0 is the returned rectangle and is allocated; the other children are
  free leaves.
\<close>

theorem Allocate_split_layout:
  assumes "SourceNode Width Height s = Some p"
    and "node_at (m_Root s) p = Some (Node r False [])"
  shows
    "(Width < width r \<and> \<not> Height < height r \<longrightarrow>
        (\<exists>s'. Allocate Width Height s = Some (Region (rx r) (ry r) Width Height, s') \<and>
          node_at (m_Root s') p = Some (Node r False
            [Node (Region (rx r) (ry r) Width Height) True [],
             Node (Region (rx r + Width) (ry r) (width r - Width) (height r)) False []]))) \<and>
     (\<not> Width < width r \<and> Height < height r \<longrightarrow>
        (\<exists>s'. Allocate Width Height s = Some (Region (rx r) (ry r) Width Height, s') \<and>
          node_at (m_Root s') p = Some (Node r False
            [Node (Region (rx r) (ry r) Width Height) True [],
             Node (Region (rx r) (ry r + Height) (width r) (height r - Height)) False []]))) \<and>
     (Width < width r \<and> Height < height r \<and> height r < width r \<longrightarrow>
        (\<exists>s'. Allocate Width Height s = Some (Region (rx r) (ry r) Width Height, s') \<and>
          node_at (m_Root s') p = Some (Node r False
            [Node (Region (rx r) (ry r) Width Height) True [],
             Node (Region (rx r + Width) (ry r) (width r - Width) (height r)) False [],
             Node (Region (rx r) (ry r + Height) Width (height r - Height)) False []]))) \<and>
     (Width < width r \<and> Height < height r \<and> \<not> height r < width r \<longrightarrow>
        (\<exists>s'. Allocate Width Height s = Some (Region (rx r) (ry r) Width Height, s') \<and>
          node_at (m_Root s') p = Some (Node r False
            [Node (Region (rx r) (ry r) Width Height) True [],
             Node (Region (rx r) (ry r + Height) (width r) (height r - Height)) False [],
             Node (Region (rx r + Width) (ry r) (width r - Width) Height) False []])))"
  using assms
  by (simp add: Allocate_def PlaceRegion_def SplitSource_def Split_def HasChildren_def
      AllocateChild0_def Let_def node_at_replace_self)

theorem Allocate_split_layout_witness:
  "SourceNode 30 20 (DynamicAtlasManager 100 50) = Some [] \<and>
   node_at (m_Root (DynamicAtlasManager 100 50)) [] = Some (Node (Region 0 0 100 50) False []) \<and>
   (\<exists>s'. Allocate 30 20 (DynamicAtlasManager 100 50) = Some (Region 0 0 30 20, s') \<and>
      node_at (m_Root s') [] = Some (Node (Region 0 0 100 50) False
        [Node (Region 0 0 30 20) True [], Node (Region 30 0 70 50) False [],
         Node (Region 0 20 30 30) False []]))"
proof -
  have 1: "SourceNode 30 20 (DynamicAtlasManager 100 50) = Some []"
    by (simp add: run_defs)
  have 2: "node_at (m_Root (DynamicAtlasManager 100 50)) [] = Some (Node (Region 0 0 100 50) False [])"
    by (simp add: run_defs)
  from Allocate_split_layout [OF 1 2] 1 2 show ?thesis by simp
qed

subsection \<open>The merge loop\<close>

lemma fold_nth_upt: "fold (\<lambda>i. f (cs ! i)) [0..<length cs] s = fold f cs s"
proof -
  have "fold (\<lambda>i. f (cs ! i)) [0..<length cs] = fold f (map (\<lambda>i. cs ! i) [0..<length cs])"
    by (simp add: fold_map comp_def)
  then show ?thesis by (simp add: map_nth)
qed

lemma fold_Unregister_free:
  "\<forall>c \<in> set cs. \<not> IsAllocated c \<Longrightarrow>
   fold UnregisterNode cs s =
     s\<lparr>m_FreeRegionsByWidth := fold (\<lambda>c. map_erase WidthThenHeightCmp (R c)) cs (m_FreeRegionsByWidth s),
       m_FreeRegionsByHeight := fold (\<lambda>c. map_erase HeightThenWidthCmp (R c)) cs (m_FreeRegionsByHeight s)\<rparr>"
  by (induction cs arbitrary: s) (simp_all add: UnregisterNode_def)

lemma MergeStep_free:
  assumes "\<forall>c \<in> set (Children N). \<not> IsAllocated c" and "\<not> IsAllocated N"
  shows "MergeStep pN N s =
     s\<lparr>m_Root := replace_at pN (Node (R N) False []) (m_Root s),
       m_FreeRegionsByWidth := map_emplace WidthThenHeightCmp (R N) pN
          (fold (\<lambda>c. map_erase WidthThenHeightCmp (R c)) (Children N) (m_FreeRegionsByWidth s)),
       m_FreeRegionsByHeight := map_emplace HeightThenWidthCmp (R N) pN
          (fold (\<lambda>c. map_erase HeightThenWidthCmp (R c)) (Children N) (m_FreeRegionsByHeight s))\<rparr>"
  using assms
  by (simp add: MergeStep_def ProcessChildren_def fold_nth_upt fold_Unregister_free
      MergeChildren_def RegisterNode_def)

text \<open>
  C3. \<^verbatim>\<open>Free\<close> releases the allocated leaf that owns the region and enters the merge
  loop at the leaf's parent. For a node \<open>N\<close> that is not null: its children can be merged
  exactly when each of them is a free leaf; then every child is taken out of both maps of
  free regions, \<open>N\<close> loses its children and becomes a free leaf, \<open>N\<close> is put into both
  maps, and the loop goes on at the parent of \<open>N\<close>. The loop stops at the first node with
  a child that is allocated or has children, and at the null parent of the root.
\<close>

theorem Free_merge_ascent:
  assumes "node_at (m_Root s) pN = Some N" and "\<not> IsAllocated N"
    and "m_AllocatedRegions s0 r = Some pL" and "node_at (m_Root s0) pL = Some (Node r True [])"
  shows
    "(\<exists>s3. Free r s0 = map_option (\<lambda>s4. (False, InvalidRegion, s4)) (MergeLoop (Parent pL) s3) \<and>
        node_at (m_Root s3) pL = Some (Node r False []) \<and>
        m_AllocatedRegions s3 = (m_AllocatedRegions s0)(r := None) \<and>
        m_FreeRegionsByWidth s3 = map_emplace WidthThenHeightCmp r pL (m_FreeRegionsByWidth s0) \<and>
        m_FreeRegionsByHeight s3 = map_emplace HeightThenWidthCmp r pL (m_FreeRegionsByHeight s0)) \<and>
     Parent [] = None \<and> Parent (pN @ [i]) = Some pN \<and>
     MergeLoop None s = Some s \<and>
     (CanMergeChildren N \<longleftrightarrow> (\<forall>c \<in> set (Children N). \<not> IsAllocated c \<and> \<not> HasChildren c)) \<and>
     (\<not> CanMergeChildren N \<longrightarrow> MergeLoop (Some pN) s = Some s) \<and>
     (CanMergeChildren N \<longrightarrow>
        (\<exists>s'. MergeLoop (Some pN) s = MergeLoop (Parent pN) s' \<and>
           node_at (m_Root s') pN = Some (Node (R N) False []) \<and>
           m_FreeRegionsByWidth s' = map_emplace WidthThenHeightCmp (R N) pN
             (fold (\<lambda>c. map_erase WidthThenHeightCmp (R c)) (Children N) (m_FreeRegionsByWidth s)) \<and>
           m_FreeRegionsByHeight s' = map_emplace HeightThenWidthCmp (R N) pN
             (fold (\<lambda>c. map_erase HeightThenWidthCmp (R c)) (Children N) (m_FreeRegionsByHeight s)) \<and>
           m_AllocatedRegions s' = m_AllocatedRegions s))"
proof -
  have 1: "\<exists>s3. Free r s0 = map_option (\<lambda>s4. (False, InvalidRegion, s4)) (MergeLoop (Parent pL) s3) \<and>
        node_at (m_Root s3) pL = Some (Node r False []) \<and>
        m_AllocatedRegions s3 = (m_AllocatedRegions s0)(r := None) \<and>
        m_FreeRegionsByWidth s3 = map_emplace WidthThenHeightCmp r pL (m_FreeRegionsByWidth s0) \<and>
        m_FreeRegionsByHeight s3 = map_emplace HeightThenWidthCmp r pL (m_FreeRegionsByHeight s0)"
  proof -
    let ?s3 = "RegisterNode pL (Node r False [])
        ((UnregisterNode (Node r True []) s0)
           \<lparr>m_Root := replace_at pL (Node r False []) (m_Root (UnregisterNode (Node r True []) s0))\<rparr>)"
    have "Free r s0 = map_option (\<lambda>s4. (False, InvalidRegion, s4)) (MergeLoop (Parent pL) ?s3)"
      using assms(3,4) by (simp add: Free_def Let_def map_option_case)
    moreover have "node_at (m_Root ?s3) pL = Some (Node r False [])"
      using assms(4) by (simp add: node_at_replace_self)
    moreover have "m_AllocatedRegions ?s3 = (m_AllocatedRegions s0)(r := None)"
      "m_FreeRegionsByWidth ?s3 = map_emplace WidthThenHeightCmp r pL (m_FreeRegionsByWidth s0)"
      "m_FreeRegionsByHeight ?s3 = map_emplace HeightThenWidthCmp r pL (m_FreeRegionsByHeight s0)"
      by (simp_all add: RegisterNode_def UnregisterNode_def)
    ultimately show ?thesis by blast
  qed
  have 2: "Parent [] = None \<and> Parent (pN @ [i]) = Some pN"
    by (simp add: Parent_def)
  have 3: "CanMergeChildren N \<longleftrightarrow> (\<forall>c \<in> set (Children N). \<not> IsAllocated c \<and> \<not> HasChildren c)"
    by (simp add: CanMergeChildren_iff HasChildren_def)
  have 4: "\<not> CanMergeChildren N \<longrightarrow> MergeLoop (Some pN) s = Some s"
    using assms(1) by simp
  have 5: "CanMergeChildren N \<longrightarrow>
        (\<exists>s'. MergeLoop (Some pN) s = MergeLoop (Parent pN) s' \<and>
           node_at (m_Root s') pN = Some (Node (R N) False []) \<and>
           m_FreeRegionsByWidth s' = map_emplace WidthThenHeightCmp (R N) pN
             (fold (\<lambda>c. map_erase WidthThenHeightCmp (R c)) (Children N) (m_FreeRegionsByWidth s)) \<and>
           m_FreeRegionsByHeight s' = map_emplace HeightThenWidthCmp (R N) pN
             (fold (\<lambda>c. map_erase HeightThenWidthCmp (R c)) (Children N) (m_FreeRegionsByHeight s)) \<and>
           m_AllocatedRegions s' = m_AllocatedRegions s)"
  proof
    assume c: "CanMergeChildren N"
    then have free: "\<forall>c \<in> set (Children N). \<not> IsAllocated c"
      by (simp add: CanMergeChildren_iff)
    have "MergeLoop (Some pN) s = MergeLoop (Parent pN) (MergeStep pN N s)"
      using assms(1) c by simp
    then show "\<exists>s'. MergeLoop (Some pN) s = MergeLoop (Parent pN) s' \<and>
           node_at (m_Root s') pN = Some (Node (R N) False []) \<and>
           m_FreeRegionsByWidth s' = map_emplace WidthThenHeightCmp (R N) pN
             (fold (\<lambda>c. map_erase WidthThenHeightCmp (R c)) (Children N) (m_FreeRegionsByWidth s)) \<and>
           m_FreeRegionsByHeight s' = map_emplace HeightThenWidthCmp (R N) pN
             (fold (\<lambda>c. map_erase HeightThenWidthCmp (R c)) (Children N) (m_FreeRegionsByHeight s)) \<and>
           m_AllocatedRegions s' = m_AllocatedRegions s"
      using MergeStep_free [OF free assms(2), of pN s] assms(1)
      by (intro exI [of _ "MergeStep pN N s"]) (simp add: node_at_replace_self)
  qed
  from 1 2 3 4 5 show ?thesis by simp
qed


theorem Free_merge_ascent_witness:
  "node_at (m_Root wide_state_released) [] = Some (m_Root wide_state_released) \<and>
   \<not> IsAllocated (m_Root wide_state_released) \<and>
   m_AllocatedRegions wide_state (Region 0 0 30 20) = Some [0] \<and>
   node_at (m_Root wide_state) [0] = Some (Node (Region 0 0 30 20) True []) \<and>
   CanMergeChildren (m_Root wide_state_released) \<and>
   (\<exists>s'. MergeLoop (Some []) wide_state_released = MergeLoop None s' \<and>
      node_at (m_Root s') [] = Some (Node (Region 0 0 100 50) False []) \<and>
      m_FreeRegionsByWidth s' = [(Region 0 0 100 50, [])]) \<and>
   (\<exists>s3. Free (Region 0 0 30 20) wide_state =
      map_option (\<lambda>s4. (False, InvalidRegion, s4)) (MergeLoop (Some []) s3) \<and>
      node_at (m_Root s3) [0] = Some (Node (Region 0 0 30 20) False []))"
proof -
  have h1: "node_at (m_Root wide_state_released) [] = Some (m_Root wide_state_released)"
    by simp
  have h2: "\<not> IsAllocated (m_Root wide_state_released)"
    by (simp add: wide_state_released_def)
  have h3: "m_AllocatedRegions wide_state (Region 0 0 30 20) = Some [0]"
    by (simp add: wide_state_def)
  have h4: "node_at (m_Root wide_state) [0] = Some (Node (Region 0 0 30 20) True [])"
    by (simp add: wide_state_def)
  have c: "CanMergeChildren (m_Root wide_state_released)"
    by (simp add: wide_state_released_def CanMergeChildren_def HasChildren_def)
  note T = Free_merge_ascent [OF h1 h2 h3 h4, of 0]
  from T c have "\<exists>s'. MergeLoop (Some []) wide_state_released = MergeLoop (Parent []) s' \<and>
      node_at (m_Root s') [] = Some (Node (R (m_Root wide_state_released)) False []) \<and>
      m_FreeRegionsByWidth s' = map_emplace WidthThenHeightCmp (R (m_Root wide_state_released)) []
        (fold (\<lambda>c. map_erase WidthThenHeightCmp (R c)) (Children (m_Root wide_state_released))
           (m_FreeRegionsByWidth wide_state_released))"
    by blast
  then have a: "\<exists>s'. MergeLoop (Some []) wide_state_released = MergeLoop None s' \<and>
      node_at (m_Root s') [] = Some (Node (Region 0 0 100 50) False []) \<and>
      m_FreeRegionsByWidth s' = [(Region 0 0 100 50, [])]"
    by (simp add: Parent_def wide_state_released_def WidthThenHeightCmp_def)
  from T have "\<exists>s3. Free (Region 0 0 30 20) wide_state =
      map_option (\<lambda>s4. (False, InvalidRegion, s4)) (MergeLoop (Parent [0]) s3) \<and>
      node_at (m_Root s3) [0] = Some (Node (Region 0 0 30 20) False [])"
    by blast
  then have b: "\<exists>s3. Free (Region 0 0 30 20) wide_state =
      map_option (\<lambda>s4. (False, InvalidRegion, s4)) (MergeLoop (Some []) s3) \<and>
      node_at (m_Root s3) [0] = Some (Node (Region 0 0 30 20) False [])"
    by (simp add: Parent_def)
  from h1 h2 h3 h4 c a b show ?thesis by blast
qed

section \<open>The contract of Allocate\<close>

lemma small_atlas_area:
  assumes "inside r (Region 0 0 W H)" "\<not> IsEmpty r" "unat W * unat H < 2 ^ 32"
  shows "width r * height r \<noteq> 0"
proof -
  have le: "unat (width r) \<le> unat W" "unat (height r) \<le> unat H"
    using assms(1) by (simp_all add: inside_def)
  have pos: "0 < unat (width r)" "0 < unat (height r)"
    using assms(2) by (simp_all add: IsEmpty_unat)
  have "unat (width r) * unat (height r) \<le> unat W * unat H"
    using le by (rule mult_le_mono)
  with assms(3) have lt: "unat (width r) * unat (height r) < 2 ^ 32" by simp
  have "unat (width r * height r) = unat (width r) * unat (height r)"
    using lt by (simp add: unat_word_ariths)
  with pos have "0 < unat (width r * height r)" by simp
  then show ?thesis by (simp add: unat_gt_0)
qed

lemma SourceNode_None_iff:
  assumes c: "consistent s" and pos: "0 < w" "0 < h"
    and area: "\<forall>e \<in> free_leaves (m_Root s). fits w h (fst e) \<longrightarrow> width (fst e) * height (fst e) \<noteq> 0"
  shows "SourceNode w h s = None \<longleftrightarrow> (\<forall>e \<in> free_leaves (m_Root s). \<not> fits w h (fst e))"
proof -
  note cs = consistent_butD [OF c [unfolded consistent_def]]
  have sw: "sorted_wrt WidthThenHeightCmp (map fst (m_FreeRegionsByWidth s))"
    and sh: "sorted_wrt HeightThenWidthCmp (map fst (m_FreeRegionsByHeight s))"
    and fw: "set (m_FreeRegionsByWidth s) = free_leaves (m_Root s)"
    and fh: "set (m_FreeRegionsByHeight s) = free_leaves (m_Root s)"
    using cs(3) by (simp_all add: indices_hold_def)
  have aw: "IterArea (FindByWidth w h s) = 0 \<longleftrightarrow> FindByWidth w h s = []"
  proof (cases "FindByWidth w h s")
    case Nil
    then show ?thesis by (simp add: IterArea_def)
  next
    case (Cons e it)
    from FindByWidth_head [OF sw Cons] area fw have "width (fst e) * height (fst e) \<noteq> 0"
      by blast
    with Cons show ?thesis by (simp add: IterArea_def)
  qed
  have ah: "IterArea (FindByHeight w h s) = 0 \<longleftrightarrow> FindByHeight w h s = []"
  proof (cases "FindByHeight w h s")
    case Nil
    then show ?thesis by (simp add: IterArea_def)
  next
    case (Cons e it)
    from FindByHeight_head [OF sh Cons] area fh have "width (fst e) * height (fst e) \<noteq> 0"
      by blast
    with Cons show ?thesis by (simp add: IterArea_def)
  qed
  have "SourceNode w h s = None \<longleftrightarrow>
      IterArea (FindByWidth w h s) = 0 \<and> IterArea (FindByHeight w h s) = 0"
    by (cases "FindByWidth w h s"; cases "FindByHeight w h s")
      (auto simp: SourceNode_def SelectSource_def IterArea_def IterSecond_def Let_def word_gt_0)
  then show ?thesis
    unfolding aw ah FindByWidth_Nil [OF sw] FindByHeight_Nil [OF sh] fw fh by simp
qed

text \<open>
  What \<^verbatim>\<open>Allocate\<close> does in a consistent manager, for a positive request: it returns
  the empty region exactly when it chooses no source; a source is a free leaf that
  fits; and a region that is not empty has the requested size, lies within the atlas and
  overlaps no allocated region.
\<close>

lemma Allocate_sound_consistent:
  assumes c: "consistent s" and pos: "0 < w" "0 < h"
  shows "\<exists>r' s'. Allocate w h s = Some (r', s') \<and>
     (IsEmpty r' \<longleftrightarrow> SourceNode w h s = None) \<and>
     (SourceNode w h s \<noteq> None \<longrightarrow> \<not> (\<forall>e \<in> free_leaves (m_Root s). \<not> fits w h (fst e))) \<and>
     (\<not> IsEmpty r' \<longrightarrow> width r' = w \<and> height r' = h \<and>
        inside r' (Region 0 0 (m_Width s) (m_Height s)) \<and>
        (\<forall>a p. m_AllocatedRegions s a = Some p \<longrightarrow> \<not> overlap r' a))"
proof (cases "SourceNode w h s")
  case None
  then show ?thesis
    by (intro exI [of _ EmptyRegion] exI [of _ s]) (simp add: Allocate_def IsEmpty_def EmptyRegion_def)
next
  case (Some p)
  note cs = consistent_butD [OF c [unfolded consistent_def]]
  from Allocate_step [OF c pos Some] obtain r s'
    where leaf: "node_at (m_Root s) p = Some (Node r False [])" and fit: "fits w h r"
      and al: "Allocate w h s = Some (Region (rx r) (ry r) w h, s')"
      and ins: "inside (Region (rx r) (ry r) w h) r"
    by blast
  let ?r' = "Region (rx r) (ry r) w h"
  have ne: "\<not> IsEmpty ?r'" using pos by (auto simp: IsEmpty_def)
  have ex: "\<not> (\<forall>e \<in> free_leaves (m_Root s). \<not> fits w h (fst e))"
    using leaf fit by (auto simp: free_leaves_def intro!: bexI [of _ "(r, p)"])
  have atlas: "inside ?r' (Region 0 0 (m_Width s) (m_Height s))"
    using node_no_wrap [OF cs(1,2) leaf] ins inside_trans by auto
  have apart: "\<not> overlap ?r' a" if "m_AllocatedRegions s a = Some q" for a q
  proof
    assume o: "overlap ?r' a"
    from that have aq: "node_at (m_Root s) q = Some (Node a True [])"
      by (simp add: allocated_entry [OF c])
    with leaf have "q \<noteq> p" by auto
    moreover from aq have "(a, q) \<in> free_leaves (m_Root s) \<union> allocated_leaves (m_Root s)"
      by (simp add: allocated_leaf_iff)
    ultimately have "\<not> overlap r a" by (rule leaf_other_regions [OF cs(2) leaf, rotated])
    with overlap_inside1 [OF o ins] show False by simp
  qed
  from al ne ex atlas apart Some show ?thesis
    by (intro exI [of _ ?r'] exI [of _ s']) auto
qed

text \<open>
  In every manager reached by legal calls, without any condition on the atlas:
  \<^verbatim>\<open>Allocate\<close> returns; it returns the empty region when no free leaf fits; and a
  returned region that is not empty has the requested size, lies within the atlas and
  overlaps no allocated region.
\<close>

lemma Allocate_sound:
  assumes "reachable s" and "0 < w" and "0 < h"
  shows "\<exists>r' s'. Allocate w h s = Some (r', s') \<and>
     ((\<forall>e \<in> free_leaves (m_Root s). \<not> fits w h (fst e)) \<longrightarrow> IsEmpty r') \<and>
     (\<not> IsEmpty r' \<longrightarrow> width r' = w \<and> height r' = h \<and>
        inside r' (Region 0 0 (m_Width s) (m_Height s)) \<and>
        (\<forall>a p. m_AllocatedRegions s a = Some p \<longrightarrow> \<not> overlap r' a))"
proof -
  from Allocate_sound_consistent [OF reachable_consistent [OF assms(1)] assms(2,3)]
  obtain r' s' where a: "Allocate w h s = Some (r', s')"
    and e: "IsEmpty r' \<longleftrightarrow> SourceNode w h s = None"
    and f: "SourceNode w h s \<noteq> None \<longrightarrow> \<not> (\<forall>e \<in> free_leaves (m_Root s). \<not> fits w h (fst e))"
    and p: "\<not> IsEmpty r' \<longrightarrow> width r' = w \<and> height r' = h \<and>
        inside r' (Region 0 0 (m_Width s) (m_Height s)) \<and>
        (\<forall>a p. m_AllocatedRegions s a = Some p \<longrightarrow> \<not> overlap r' a)"
    by (elim exE conjE) (rule that)
  have "(\<forall>e \<in> free_leaves (m_Root s). \<not> fits w h (fst e)) \<longrightarrow> IsEmpty r'"
    using e f by blast
  with a p show ?thesis by blast
qed

text \<open>
  The other direction, that an empty result means that no free leaf fits, holds when the
  32-bit product of width and height of every free leaf that fits is not zero.
\<close>

lemma Allocate_complete_if_products:
  assumes "reachable s" and "0 < w" and "0 < h"
    and "\<forall>e \<in> free_leaves (m_Root s). fits w h (fst e) \<longrightarrow> width (fst e) * height (fst e) \<noteq> 0"
  shows "\<exists>r' s'. Allocate w h s = Some (r', s') \<and>
     (IsEmpty r' \<longleftrightarrow> (\<forall>e \<in> free_leaves (m_Root s). \<not> fits w h (fst e)))"
proof -
  note c = reachable_consistent [OF assms(1)]
  from Allocate_sound_consistent [OF c assms(2,3)]
  obtain r' s' where a: "Allocate w h s = Some (r', s')"
    and e: "IsEmpty r' \<longleftrightarrow> SourceNode w h s = None"
    by (elim exE conjE) (rule that)
  from e SourceNode_None_iff [OF c assms(2,3,4)]
  have "IsEmpty r' \<longleftrightarrow> (\<forall>e \<in> free_leaves (m_Root s). \<not> fits w h (fst e))"
    by simp
  with a show ?thesis by (intro exI [of _ r'] exI [of _ s']) simp
qed

text \<open>
  C1. For every manager reached by legal calls and positive \<open>w\<close> and \<open>h\<close>,
  \<^verbatim>\<open>Allocate(w, h)\<close> is to return an empty region if and only if no free leaf has
  width at least \<open>w\<close> and height at least \<open>h\<close>. The code does not: the fresh manager
  of a 65536 by 65536 atlas is reached by the constructor, its root is a free leaf that
  fits a request of 1 by 1, the 32-bit product of the root's width and height is 0 in
  both searches, which \<^verbatim>\<open>Allocate\<close> takes for "no candidate", and
  \<^verbatim>\<open>Allocate(1, 1)\<close> returns the empty region and places nothing.
\<close>

theorem Allocate_empty_although_leaf_fits:
  "reachable (DynamicAtlasManager 65536 65536) \<and> (0 :: Uint32) < 1 \<and>
   (Region 0 0 65536 65536, []) \<in> free_leaves (m_Root (DynamicAtlasManager 65536 65536)) \<and>
   fits 1 1 (Region 0 0 65536 65536) \<and>
   FindByWidth 1 1 (DynamicAtlasManager 65536 65536) = [(Region 0 0 65536 65536, [])] \<and>
   FindByHeight 1 1 (DynamicAtlasManager 65536 65536) = [(Region 0 0 65536 65536, [])] \<and>
   IterArea (FindByWidth 1 1 (DynamicAtlasManager 65536 65536)) = 0 \<and>
   IterArea (FindByHeight 1 1 (DynamicAtlasManager 65536 65536)) = 0 \<and>
   SourceNode 1 1 (DynamicAtlasManager 65536 65536) = None \<and>
   Allocate 1 1 (DynamicAtlasManager 65536 65536) =
     Some (EmptyRegion, DynamicAtlasManager 65536 65536) \<and>
   IsEmpty EmptyRegion"
proof -
  have "Allocate 1 1 (DynamicAtlasManager 65536 65536) =
     Some (EmptyRegion, DynamicAtlasManager 65536 65536)"
    "FindByWidth 1 1 (DynamicAtlasManager 65536 65536) = [(Region 0 0 65536 65536, [])]"
    "FindByHeight 1 1 (DynamicAtlasManager 65536 65536) = [(Region 0 0 65536 65536, [])]"
    "IterArea (FindByWidth 1 1 (DynamicAtlasManager 65536 65536)) = 0"
    "IterArea (FindByHeight 1 1 (DynamicAtlasManager 65536 65536)) = 0"
    "SourceNode 1 1 (DynamicAtlasManager 65536 65536) = None"
    by (simp_all add: run_defs)
  moreover have "(Region 0 0 65536 65536, []) \<in> free_leaves (m_Root (DynamicAtlasManager 65536 65536))"
    by (simp add: DynamicAtlasManager_fields)
  ultimately show ?thesis
    using reach_new [of 65536 65536] by (simp add: fits_def IsEmpty_def EmptyRegion_def)
qed

text \<open>The hypothesis on the products holds in every atlas of fewer than \<open>2^32\<close> texels.\<close>

lemma small_atlas_products:
  assumes "reachable s" "0 < w" "0 < h" "unat (m_Width s) * unat (m_Height s) < 2 ^ 32"
  shows "\<forall>e \<in> free_leaves (m_Root s). fits w h (fst e) \<longrightarrow> width (fst e) * height (fst e) \<noteq> 0"
proof (intro ballI impI)
  fix e assume e: "e \<in> free_leaves (m_Root s)" "fits w h (fst e)"
  note cs = consistent_butD [OF reachable_consistent [OF assms(1), unfolded consistent_def]]
  obtain r p where rp: "e = (r, p)" by (cases e)
  with e have leaf: "node_at (m_Root s) p = Some (Node r False [])" by (simp add: free_leaf_iff)
  have "unat w \<le> unat (width r)" "unat h \<le> unat (height r)" "0 < unat w" "0 < unat h"
    using e(2) rp assms(2,3) by (simp_all add: fits_def word_le_nat_alt word_less_nat_alt)
  then have ne: "\<not> IsEmpty r" by (simp add: IsEmpty_unat)
  have "inside r (Region 0 0 (m_Width s) (m_Height s))"
    using node_no_wrap [OF cs(1,2) leaf] by simp
  from small_atlas_area [OF this ne assms(4)] rp show "width (fst e) * height (fst e) \<noteq> 0"
    by simp
qed

text \<open>
  C4. In a manager reached by legal calls, when \<^verbatim>\<open>Allocate(w, h)\<close> with positive
  \<open>w\<close> and \<open>h\<close> returns a region that is not empty, \<^verbatim>\<open>Free\<close> of that region gives
  back the manager as it was before the call: the same tree, the same two maps of free
  regions and the same map of allocated regions. And a manager whose map of allocated
  regions is empty, as it is when every allocated region has been freed, is the manager
  that the constructor makes.
\<close>

theorem Allocate_Free_round_trip:
  assumes "reachable s"
  shows "(0 < w \<and> 0 < h \<and> Allocate w h s = Some (r', s') \<and> \<not> IsEmpty r' \<longrightarrow>
            Free r' s' = Some (False, InvalidRegion, s)) \<and>
         (m_AllocatedRegions s = Map.empty \<longrightarrow> s = DynamicAtlasManager (m_Width s) (m_Height s))"
  using Allocate_Free_restores [OF reachable_consistent [OF assms], of w h r' s']
    nothing_allocated_new [OF reachable_consistent [OF assms]]
  by blast

theorem Allocate_Free_round_trip_witness:
  "reachable (DynamicAtlasManager 100 50) \<and>
   Allocate 30 20 (DynamicAtlasManager 100 50) = Some (Region 0 0 30 20, wide_state) \<and>
   \<not> IsEmpty (Region 0 0 30 20) \<and>
   Free (Region 0 0 30 20) wide_state = Some (False, InvalidRegion, DynamicAtlasManager 100 50) \<and>
   m_AllocatedRegions (DynamicAtlasManager 100 50) = Map.empty \<and>
   DynamicAtlasManager 100 50 =
     DynamicAtlasManager (m_Width (DynamicAtlasManager 100 50)) (m_Height (DynamicAtlasManager 100 50))"
proof -
  have r: "reachable (DynamicAtlasManager 100 50)" by (rule reach_new)
  have ne: "\<not> IsEmpty (Region 0 0 30 20)" by (simp add: IsEmpty_def)
  have e: "m_AllocatedRegions (DynamicAtlasManager 100 50) = Map.empty"
    by (simp add: DynamicAtlasManager_fields)
  from Allocate_Free_round_trip [OF r, of 30 20 "Region 0 0 30 20" wide_state] Allocate_wide ne e r
  show ?thesis by simp
qed

section \<open>Zero dimensions\<close>

lemma PlaceRegion_changes:
  assumes "node_at (m_Root s) p = Some (Node r False [])"
  shows "\<exists>r' s'. PlaceRegion p w h s = Some (r', s') \<and> m_Root s' \<noteq> m_Root s \<and>
     (r' = Region (rx r) (ry r) w h \<or> r' = r \<and> width r \<le> w \<and> height r \<le> h)"
proof -
  let ?src1 = "SplitSource w h (Node r False [])"
  have differ: "replace_at p n (m_Root s) \<noteq> m_Root s" if "n \<noteq> Node r False []" for n
  proof
    assume "replace_at p n (m_Root s) = m_Root s"
    then have "node_at (replace_at p n (m_Root s)) p = Some (Node r False [])"
      using assms by simp
    with node_at_replace_self [OF assms, of n] that show False by simp
  qed
  show ?thesis
  proof (cases "HasChildren ?src1")
    case True
    let ?src2 = "AllocateChild0 ?src1"
    have c0: "R (Children ?src2 ! 0) = Region (rx r) (ry r) w h"
      using True
      by (auto simp: SplitSource_def Split_def AllocateChild0_def HasChildren_def Let_def split: if_splits)
    have "Children ?src2 \<noteq> []"
      using True by (simp add: AllocateChild0_def HasChildren_def)
    then have "?src2 \<noteq> Node r False []" by auto
    from differ [OF this] True c0 assms show ?thesis
      by (simp add: PlaceRegion_def Let_def)
  next
    case False
    then have same: "?src1 = Node r False []" and le: "width r \<le> w" "height r \<le> h"
      by (auto simp: SplitSource_def Split_def HasChildren_def Let_def not_less split: if_splits)
    have "Node r True [] \<noteq> Node r False []" by simp
    from differ [OF this] False same le assms show ?thesis
      by (simp add: PlaceRegion_def Let_def)
  qed
qed

text \<open>
  In a manager reached by legal calls, \<^verbatim>\<open>Allocate\<close> with a zero width or a zero
  height returns an empty region, and it leaves the manager as it was exactly when it
  finds no source leaf.
\<close>

lemma Allocate_zero_dimension:
  assumes "reachable s" and "w = 0 \<or> h = 0"
  shows "\<exists>r' s'. Allocate w h s = Some (r', s') \<and> IsEmpty r' \<and>
     (s' = s \<longleftrightarrow> SourceNode w h s = None)"
proof (cases "SourceNode w h s")
  case None
  then show ?thesis
    by (intro exI [of _ EmptyRegion] exI [of _ s]) (simp add: Allocate_def IsEmpty_def EmptyRegion_def)
next
  case (Some p)
  from SourceNode_leaf [OF reachable_consistent [OF assms(1)] Some]
  obtain r where leaf: "node_at (m_Root s) p = Some (Node r False [])" by blast
  from PlaceRegion_changes [OF leaf, of w h] obtain r' s'
    where P: "PlaceRegion p w h s = Some (r', s')" and d: "m_Root s' \<noteq> m_Root s"
      and r': "r' = Region (rx r) (ry r) w h \<or> r' = r \<and> width r \<le> w \<and> height r \<le> h"
    by blast
  have "IsEmpty r'" using r' assms(2) by (auto simp: IsEmpty_def)
  moreover have "s' \<noteq> s" using d by auto
  ultimately show ?thesis
    using P Some by (intro exI [of _ r'] exI [of _ s']) (simp add: Allocate_def)
qed

text \<open>
  C8. \<^verbatim>\<open>Allocate\<close> with a zero width or a zero height is to return an empty region
  and to leave the tree, both maps of free regions and the map of allocated regions as
  they were. The code does not: on the fresh manager of a 100 by 100 atlas, reached by
  the constructor, \<^verbatim>\<open>Allocate(0, 5)\<close> returns the empty region \<open>(0, 0, 0, 5)\<close>,
  splits the root into three children, puts two free leaves into both maps of free
  regions in place of the root, and registers the empty region as allocated, which the
  check \<^verbatim>\<open>VERIFY(!N.R.IsEmpty())\<close> of \<^verbatim>\<open>RegisterNode\<close> forbids.
\<close>

theorem Allocate_zero_width_changes_manager:
  "reachable (DynamicAtlasManager 100 100) \<and>
   Allocate 0 5 (DynamicAtlasManager 100 100) = Some (Region 0 0 0 5, zero_width_state) \<and>
   IsEmpty (Region 0 0 0 5) \<and>
   zero_width_state \<noteq> DynamicAtlasManager 100 100 \<and>
   m_Root (DynamicAtlasManager 100 100) = Node (Region 0 0 100 100) False [] \<and>
   m_Root zero_width_state = Node (Region 0 0 100 100) False
     [Node (Region 0 0 0 5) True [], Node (Region 0 5 100 95) False [],
      Node (Region 0 0 100 5) False []] \<and>
   m_FreeRegionsByWidth (DynamicAtlasManager 100 100) = [(Region 0 0 100 100, [])] \<and>
   m_FreeRegionsByWidth zero_width_state = [(Region 0 0 100 5, [2]), (Region 0 5 100 95, [1])] \<and>
   m_FreeRegionsByHeight (DynamicAtlasManager 100 100) = [(Region 0 0 100 100, [])] \<and>
   m_FreeRegionsByHeight zero_width_state = [(Region 0 0 100 5, [2]), (Region 0 5 100 95, [1])] \<and>
   m_AllocatedRegions (DynamicAtlasManager 100 100) (Region 0 0 0 5) = None \<and>
   m_AllocatedRegions zero_width_state (Region 0 0 0 5) = Some [0]"
proof -
  have a: "Allocate 0 5 (DynamicAtlasManager 100 100) = Some (Region 0 0 0 5, zero_width_state)"
    by (simp add: run_defs zero_width_state_def)
  have b: "m_Root zero_width_state \<noteq> m_Root (DynamicAtlasManager 100 100)"
    by (simp add: zero_width_state_def DynamicAtlasManager_fields)
  then have c: "zero_width_state \<noteq> DynamicAtlasManager 100 100" by auto
  have d: "m_Root zero_width_state = Node (Region 0 0 100 100) False
     [Node (Region 0 0 0 5) True [], Node (Region 0 5 100 95) False [],
      Node (Region 0 0 100 5) False []]"
    "m_FreeRegionsByWidth zero_width_state = [(Region 0 0 100 5, [2]), (Region 0 5 100 95, [1])]"
    "m_FreeRegionsByHeight zero_width_state = [(Region 0 0 100 5, [2]), (Region 0 5 100 95, [1])]"
    "m_AllocatedRegions zero_width_state (Region 0 0 0 5) = Some [0]"
    by (simp_all add: zero_width_state_def)
  from a c d reach_new [of 100 100] show ?thesis
    by (simp add: IsEmpty_def DynamicAtlasManager_fields)
qed

lemma MergeLoop_keeps_allocated:
  "consistent_but N s \<Longrightarrow>
   (\<And>pN. N = Some pN \<Longrightarrow> \<exists>n. node_at (m_Root s) pN = Some n \<and> Children n \<noteq> []) \<Longrightarrow>
   MergeLoop N s = Some s' \<Longrightarrow> m_AllocatedRegions s' = m_AllocatedRegions s"
proof (induction N s rule: MergeLoop.induct)
  case (1 s)
  then show ?case by simp
next
  case (2 pN s)
  from "2.prems"(2) [OF refl] obtain n where n: "node_at (m_Root s) pN = Some n" "Children n \<noteq> []"
    by blast
  show ?case
  proof (cases "CanMergeChildren n")
    case False
    with n "2.prems"(3) show ?thesis by simp
  next
    case True
    let ?s = "MergeStep pN n s"
    have wn: "wf_node n" using wf_node_at [OF consistent_butD(2) [OF "2.prems"(1)] n(1)] by simp
    have na: "\<not> IsAllocated n" using wn n(2) by (cases n) auto
    have kids: "\<forall>c \<in> set (Children n). \<not> IsAllocated c"
      using True by (simp add: CanMergeChildren_iff)
    have keep: "m_AllocatedRegions ?s = m_AllocatedRegions s"
      by (simp add: MergeStep_free [OF kids na])
    have c: "consistent_but (Parent pN) ?s"
      by (rule merge_step_consistent [OF "2.prems"(1) n True])
    have v: "\<exists>m. node_at (m_Root ?s) q = Some m \<and> Children m \<noteq> []" if "Parent pN = Some q" for q
    proof (rule parent_has_children [OF _ that])
      show "node_at (m_Root ?s) pN = Some (MergeChildren n)"
        using node_at_replace_self [OF n(1)] by simp
    qed
    have "MergeLoop (Parent pN) ?s = Some s'"
      using "2.prems"(3) n True by simp
    from "2.IH" [OF n(1) True c v this] keep show ?thesis by simp
  qed
qed

text \<open>
  C10. \<^verbatim>\<open>Free\<close> takes the caller's region by reference. In a manager reached by
  legal calls it returns. When the region is not in the map of allocated regions it
  returns early: the caller's region and the manager are as they were. When the map
  holds the region, with the leaf at \<open>p\<close>, that leaf is an allocated leaf of this region;
  \<^verbatim>\<open>Free\<close> takes it out of the map of allocated regions, marks it free and puts it
  into both maps of free regions, runs the merge loop from the leaf's parent, and only
  then sets the caller's region to \<^verbatim>\<open>InvalidRegion = (UINT_MAX, UINT_MAX, 0, 0)\<close>:
  the manager it leaves is the one the merge loop returns, and its map of allocated
  regions is the old one without the region.
\<close>

theorem Free_region_handle:
  assumes "reachable s"
  shows "(m_AllocatedRegions s r = None \<longrightarrow> Free r s = Some (True, r, s)) \<and>
         (m_AllocatedRegions s r = Some p \<longrightarrow>
            node_at (m_Root s) p = Some (Node r True []) \<and>
            (\<exists>s'. MergeLoop (Parent p)
                     (s\<lparr>m_Root := replace_at p (Node r False []) (m_Root s),
                        m_FreeRegionsByWidth :=
                          map_emplace WidthThenHeightCmp r p (m_FreeRegionsByWidth s),
                        m_FreeRegionsByHeight :=
                          map_emplace HeightThenWidthCmp r p (m_FreeRegionsByHeight s),
                        m_AllocatedRegions := (m_AllocatedRegions s)(r := None)\<rparr>) = Some s' \<and>
                  Free r s = Some (False, InvalidRegion, s') \<and>
                  m_AllocatedRegions s' = (m_AllocatedRegions s)(r := None) \<and>
                  s' \<noteq> s \<and> reachable s')) \<and>
         InvalidRegion = Region 4294967295 4294967295 0 0"
proof -
  note c = reachable_consistent [OF assms]
  have 1: "m_AllocatedRegions s r = None \<longrightarrow> Free r s = Some (True, r, s)"
    by (simp add: Free_def)
  have 2: "m_AllocatedRegions s r = Some p \<longrightarrow>
            node_at (m_Root s) p = Some (Node r True []) \<and>
            (\<exists>s'. MergeLoop (Parent p)
                     (s\<lparr>m_Root := replace_at p (Node r False []) (m_Root s),
                        m_FreeRegionsByWidth :=
                          map_emplace WidthThenHeightCmp r p (m_FreeRegionsByWidth s),
                        m_FreeRegionsByHeight :=
                          map_emplace HeightThenWidthCmp r p (m_FreeRegionsByHeight s),
                        m_AllocatedRegions := (m_AllocatedRegions s)(r := None)\<rparr>) = Some s' \<and>
                  Free r s = Some (False, InvalidRegion, s') \<and>
                  m_AllocatedRegions s' = (m_AllocatedRegions s)(r := None) \<and>
                  s' \<noteq> s \<and> reachable s')"
  proof
    assume m: "m_AllocatedRegions s r = Some p"
    then have leaf: "node_at (m_Root s) p = Some (Node r True [])"
      by (simp add: allocated_entry [OF c])
    let ?s3 = "RegisterNode p (Node r False [])
      ((UnregisterNode (Node r True []) s)
         \<lparr>m_Root := replace_at p (Node r False []) (m_Root (UnregisterNode (Node r True []) s))\<rparr>)"
    let ?e = "s\<lparr>m_Root := replace_at p (Node r False []) (m_Root s),
                        m_FreeRegionsByWidth :=
                          map_emplace WidthThenHeightCmp r p (m_FreeRegionsByWidth s),
                        m_FreeRegionsByHeight :=
                          map_emplace HeightThenWidthCmp r p (m_FreeRegionsByHeight s),
                        m_AllocatedRegions := (m_AllocatedRegions s)(r := None)\<rparr>"
    have eq: "?s3 = ?e" by (simp add: RegisterNode_def UnregisterNode_def)
    note rel = release_consistent [OF c leaf]
    have v: "\<exists>k. node_at (m_Root ?s3) q = Some k \<and> Children k \<noteq> []" if "Parent p = Some q" for q
    proof (rule parent_has_children [OF _ that])
      show "node_at (m_Root ?s3) p = Some (Node r False [])"
        using node_at_replace_self [OF leaf] by simp
    qed
    from MergeLoop_consistent [of "Parent p" ?s3] rel v
    obtain s' where s': "MergeLoop (Parent p) ?s3 = Some s'" by auto
    have F: "Free r s = Some (False, InvalidRegion, s')"
      using m leaf s' by (simp add: Free_def Let_def)
    have "m_AllocatedRegions s' = m_AllocatedRegions ?s3"
      by (rule MergeLoop_keeps_allocated [OF _ v s']) (use rel in simp_all)
    then have al: "m_AllocatedRegions s' = (m_AllocatedRegions s)(r := None)"
      by (simp add: RegisterNode_def UnregisterNode_def)
    have ne: "s' \<noteq> s"
    proof
      assume "s' = s"
      with al have "m_AllocatedRegions s r = ((m_AllocatedRegions s)(r := None)) r" by simp
      with m show False by simp
    qed
    have "reachable s'" by (rule reach_Free [OF assms F])
    with leaf s' F al ne show "node_at (m_Root s) p = Some (Node r True []) \<and>
            (\<exists>s'. MergeLoop (Parent p) ?e = Some s' \<and>
                  Free r s = Some (False, InvalidRegion, s') \<and>
                  m_AllocatedRegions s' = (m_AllocatedRegions s)(r := None) \<and>
                  s' \<noteq> s \<and> reachable s')"
      unfolding eq by blast
  qed
  have 3: "InvalidRegion = Region 4294967295 4294967295 0 0"
    by (simp add: InvalidRegion_def)
  from 1 2 3 show ?thesis by blast
qed

theorem Free_region_handle_witness:
  "reachable wide_state \<and>
   m_AllocatedRegions wide_state (Region 30 0 70 50) = None \<and>
   Free (Region 30 0 70 50) wide_state = Some (True, Region 30 0 70 50, wide_state) \<and>
   m_AllocatedRegions wide_state (Region 0 0 30 20) = Some [0] \<and>
   node_at (m_Root wide_state) [0] = Some (Node (Region 0 0 30 20) True []) \<and>
   (\<exists>s'. Free (Region 0 0 30 20) wide_state = Some (False, InvalidRegion, s') \<and>
      m_AllocatedRegions s' (Region 0 0 30 20) = None \<and> s' \<noteq> wide_state)"
proof -
  have n: "m_AllocatedRegions wide_state (Region 30 0 70 50) = None"
    and y: "m_AllocatedRegions wide_state (Region 0 0 30 20) = Some [0]"
    by (simp_all add: wide_state_def)
  note A = Free_region_handle [OF reachable_wide, of "Region 30 0 70 50" "[]"]
  note B = Free_region_handle [OF reachable_wide, of "Region 0 0 30 20" "[0]"]
  from A n have 1: "Free (Region 30 0 70 50) wide_state = Some (True, Region 30 0 70 50, wide_state)"
    by blast
  from B y have 2: "node_at (m_Root wide_state) [0] = Some (Node (Region 0 0 30 20) True [])"
    by blast
  from B y obtain s' where s': "Free (Region 0 0 30 20) wide_state = Some (False, InvalidRegion, s')"
    "m_AllocatedRegions s' = (m_AllocatedRegions wide_state)(Region 0 0 30 20 := None)"
    "s' \<noteq> wide_state"
    by blast
  from s'(2) have "m_AllocatedRegions s' (Region 0 0 30 20) = None" by simp
  with s'(1,3) have 3: "\<exists>s'. Free (Region 0 0 30 20) wide_state = Some (False, InvalidRegion, s') \<and>
      m_AllocatedRegions s' (Region 0 0 30 20) = None \<and> s' \<noteq> wide_state"
    by blast
  from reachable_wide n y 1 2 3 show ?thesis by blast
qed

end
